theory Spec2Isabelle
  imports Main "HOL-Library.Char_ord" "HOL-Library.List_Lexorder" "HOL-Library.Product_Lexorder"
begin

section \<open>Strings: character classes, \<open>str.strip\<close>, \<open>str(int)\<close> and \<open>int(str)\<close>\<close>

text \<open>
  Python strings are modelled as \<^typ>\<open>string\<close>; a \<^typ>\<open>char\<close> stands for a code point
  below 256. In that range the decimal digits (what \<^verbatim>\<open>\d\<close> matches in a \<^verbatim>\<open>str\<close> pattern)
  are exactly \<^verbatim>\<open>0\<close> to \<^verbatim>\<open>9\<close>, and the characters \<^verbatim>\<open>str.strip()\<close> removes are the ones
  listed in \<open>is_space\<close>.
\<close>

definition is_digit :: "char \<Rightarrow> bool" where
  "is_digit c = (48 \<le> (of_char c :: nat) \<and> (of_char c :: nat) \<le> 57)"

definition is_lower :: "char \<Rightarrow> bool" where
  "is_lower c = (97 \<le> (of_char c :: nat) \<and> (of_char c :: nat) \<le> 122)"

definition is_upper :: "char \<Rightarrow> bool" where
  "is_upper c = (65 \<le> (of_char c :: nat) \<and> (of_char c :: nat) \<le> 90)"

definition newline :: char where
  "newline = CHR 0x0A"

definition is_space :: "char \<Rightarrow> bool" where
  "is_space c = ((of_char c :: nat) \<in> {9, 10, 11, 12, 13, 28, 29, 30, 31, 32, 133, 160})"

definition strip :: "string \<Rightarrow> string" where
  "strip s = rev (dropWhile is_space (rev (dropWhile is_space s)))"

definition digit_char :: "nat \<Rightarrow> char" where
  "digit_char d = char_of (48 + d)"

definition digit_val :: "char \<Rightarrow> nat" where
  "digit_val c = of_char c - 48"

text \<open>\<^verbatim>\<open>str(n)\<close> for a non-negative integer.\<close>

function str_nat :: "nat \<Rightarrow> string" where
  "str_nat n = (if n < 10 then [digit_char n] else str_nat (n div 10) @ [digit_char (n mod 10)])"
  by pat_completeness auto
termination
  by (relation "measure id") auto

declare str_nat.simps [simp del]

text \<open>\<^verbatim>\<open>int(s)\<close> for a string of decimal digits (leading zeros are accepted, as in Python).\<close>

definition int_of_str :: "string \<Rightarrow> nat" where
  "int_of_str s = foldl (\<lambda>a c. 10 * a + digit_val c) 0 s"

text \<open>Non-empty runs of digits and of lower-case letters, the fields of the tag grammars.\<close>

definition digits :: "string \<Rightarrow> bool" where
  "digits s = (s \<noteq> [] \<and> list_all is_digit s)"

definition lowers :: "string \<Rightarrow> bool" where
  "lowers s = (s \<noteq> [] \<and> list_all is_lower s)"

section \<open>The fragment of Python's \<open>re\<close> that the patterns of \<open>vcm.py\<close> are written in\<close>

text \<open>
  The patterns are strings, several of them built by concatenation with caller-supplied
  text, so the model compiles a pattern string and then runs a backtracking matcher.
  The fragment: literal characters, \<^verbatim>\<open>.\<close> (any character but a newline), \<^verbatim>\<open>\d\<close>, an escaped
  punctuation character, a class \<^verbatim>\<open>[a-b]\<close> of one range, \<^verbatim>\<open>+\<close> (greedy) after one of these,
  \<^verbatim>\<open>^\<close>, \<^verbatim>\<open>$\<close>, and capturing groups \<^verbatim>\<open>(..|..)\<close> that are neither nested nor repeated.
  A pattern outside the fragment does not compile (\<open>None\<close>).
\<close>

datatype atom = Lit char | AnyChar | Digit | Range char char

datatype token = TAtom atom | TPlus | TOpen | TClose | TBar | TBol | TEol

definition backslash :: char where
  "backslash = CHR 0x5C"

definition escapable :: "char \<Rightarrow> bool" where
  "escapable c = (c \<in> set ''.^$*+?{}[]()|-/'' \<or> c = backslash)"

definition class_end :: "char \<Rightarrow> bool" where
  "class_end c = (is_digit c \<or> is_lower c \<or> is_upper c)"

fun lex :: "string \<Rightarrow> token list option" where
  "lex [] = Some []"
| "lex (c # cs) =
    (if c = backslash then
       (case cs of
          [] \<Rightarrow> None
        | e # r \<Rightarrow>
            if e = CHR ''d'' then map_option ((#) (TAtom Digit)) (lex r)
            else if escapable e then map_option ((#) (TAtom (Lit e))) (lex r)
            else None)
     else if c = CHR ''['' then
       (case cs of
          a # m # b # e # r \<Rightarrow>
            if m = CHR ''-'' \<and> e = CHR '']'' \<and> class_end a \<and> class_end b
               \<and> (of_char a :: nat) \<le> of_char b
            then map_option ((#) (TAtom (Range a b))) (lex r)
            else None
        | _ \<Rightarrow> None)
     else if c = CHR ''.'' then map_option ((#) (TAtom AnyChar)) (lex cs)
     else if c = CHR ''^'' then map_option ((#) TBol) (lex cs)
     else if c = CHR ''$'' then map_option ((#) TEol) (lex cs)
     else if c = CHR ''('' then map_option ((#) TOpen) (lex cs)
     else if c = CHR '')'' then map_option ((#) TClose) (lex cs)
     else if c = CHR ''|'' then map_option ((#) TBar) (lex cs)
     else if c = CHR ''+'' then map_option ((#) TPlus) (lex cs)
     else if c \<in> set ''*?{}]'' then None
     else map_option ((#) (TAtom (Lit c))) (lex cs))"

datatype item = One atom | Many atom | Bol | Eol

datatype node = Item item | Group "item list list"

fun items_of :: "token list \<Rightarrow> item list option" where
  "items_of [] = Some []"
| "items_of (TAtom a # TPlus # ts) = map_option ((#) (Many a)) (items_of ts)"
| "items_of (TAtom a # ts) = map_option ((#) (One a)) (items_of ts)"
| "items_of (TBol # ts) = map_option ((#) Bol) (items_of ts)"
| "items_of (TEol # ts) = map_option ((#) Eol) (items_of ts)"
| "items_of _ = None"

fun split_bar :: "token list \<Rightarrow> token list list" where
  "split_bar [] = [[]]"
| "split_bar (t # ts) =
    (if t = TBar then [] # split_bar ts
     else (case split_bar ts of [] \<Rightarrow> [[t]] | x # xs \<Rightarrow> (t # x) # xs))"

fun group_body :: "token list \<Rightarrow> (token list \<times> token list) option" where
  "group_body [] = None"
| "group_body (TClose # ts) = Some ([], ts)"
| "group_body (TOpen # ts) = None"
| "group_body (t # ts) = map_option (\<lambda>(b, r). (t # b, r)) (group_body ts)"

lemma group_body_shorter: "group_body ts = Some (b, r) \<Longrightarrow> length r < length ts"
  by (induction ts arbitrary: b r rule: group_body.induct) (auto split: prod.splits)

function (sequential) nodes_of :: "token list \<Rightarrow> node list option" where
  "nodes_of [] = Some []"
| "nodes_of (TAtom a # TPlus # ts) = map_option ((#) (Item (Many a))) (nodes_of ts)"
| "nodes_of (TAtom a # ts) = map_option ((#) (Item (One a))) (nodes_of ts)"
| "nodes_of (TBol # ts) = map_option ((#) (Item Bol)) (nodes_of ts)"
| "nodes_of (TEol # ts) = map_option ((#) (Item Eol)) (nodes_of ts)"
| "nodes_of (TOpen # ts) =
    (case group_body ts of
       None \<Rightarrow> None
     | Some (body, rest) \<Rightarrow>
         (case those (map items_of (split_bar body)) of
            None \<Rightarrow> None
          | Some alts \<Rightarrow> map_option ((#) (Group alts)) (nodes_of rest)))"
| "nodes_of _ = None"
  by pat_completeness auto
termination
  by (relation "measure length") (auto dest: group_body_shorter)

definition compile :: "string \<Rightarrow> node list option" where
  "compile p = Option.bind (lex p) nodes_of"

fun atom_ok :: "atom \<Rightarrow> char \<Rightarrow> bool" where
  "atom_ok (Lit c) x = (x = c)"
| "atom_ok AnyChar x = (x \<noteq> newline)"
| "atom_ok Digit x = is_digit x"
| "atom_ok (Range a b) x = ((of_char a :: nat) \<le> of_char x \<and> (of_char x :: nat) \<le> of_char b)"

text \<open>
  The matchers return, in the order a backtracking engine tries them, what is left of the
  subject after each way of matching. \<open>n\<close> is the length of the whole subject, so that
  \<^verbatim>\<open>^\<close> can tell the start; \<^verbatim>\<open>$\<close> holds at the end and before a final newline.
\<close>

fun m_many :: "atom \<Rightarrow> string \<Rightarrow> string list" where
  "m_many a [] = []"
| "m_many a (c # cs) = (if atom_ok a c then m_many a cs @ [cs] else [])"

fun m_item :: "nat \<Rightarrow> item \<Rightarrow> string \<Rightarrow> string list" where
  "m_item n (One a) s = (case s of [] \<Rightarrow> [] | c # cs \<Rightarrow> if atom_ok a c then [cs] else [])"
| "m_item n (Many a) s = m_many a s"
| "m_item n Bol s = (if length s = n then [s] else [])"
| "m_item n Eol s = (if s = [] \<or> s = [newline] then [s] else [])"

fun m_seq :: "nat \<Rightarrow> item list \<Rightarrow> string \<Rightarrow> string list" where
  "m_seq n [] s = [s]"
| "m_seq n (i # is) s = concat (map (m_seq n is) (m_item n i s))"

text \<open>A group appends the text it matched to the captures; groups are met in their order.\<close>

fun m_node :: "nat \<Rightarrow> node \<Rightarrow> string \<times> string list \<Rightarrow> (string \<times> string list) list" where
  "m_node n (Item i) (s, caps) = map (\<lambda>r. (r, caps)) (m_item n i s)"
| "m_node n (Group alts) (s, caps) =
     concat (map (\<lambda>alt. map (\<lambda>r. (r, caps @ [take (length s - length r) s])) (m_seq n alt s)) alts)"

fun m_nodes :: "nat \<Rightarrow> node list \<Rightarrow> string \<times> string list \<Rightarrow> (string \<times> string list) list" where
  "m_nodes n [] st = [st]"
| "m_nodes n (x # xs) st = concat (map (m_nodes n xs) (m_node n x st))"

text \<open>
  A match object is the list of its groups, group 0 (the whole match) first.
  \<open>match_from\<close> is the first match that starts at offset \<open>i\<close>.
\<close>

definition match_obj :: "string \<Rightarrow> nat \<Rightarrow> string \<times> string list \<Rightarrow> string list" where
  "match_obj s i st = take (length s - i - length (fst st)) (drop i s) # snd st"

definition match_from :: "node list \<Rightarrow> string \<Rightarrow> nat \<Rightarrow> string list option" where
  "match_from ns s i =
     (case m_nodes (length s) ns (drop i s, []) of [] \<Rightarrow> None | st # _ \<Rightarrow> Some (match_obj s i st))"

definition re_match :: "string \<Rightarrow> string \<Rightarrow> string list option option" where
  "re_match p s = map_option (\<lambda>ns. match_from ns s 0) (compile p)"

definition re_fullmatch :: "string \<Rightarrow> string \<Rightarrow> string list option option" where
  "re_fullmatch p s =
     map_option (\<lambda>ns.
       (case filter (\<lambda>st. fst st = []) (m_nodes (length s) ns (s, [])) of
          [] \<Rightarrow> None
        | st # _ \<Rightarrow> Some (match_obj s 0 st))) (compile p)"

fun first_some :: "('a \<Rightarrow> 'b option) \<Rightarrow> 'a list \<Rightarrow> 'b option" where
  "first_some f [] = None"
| "first_some f (x # xs) = (case f x of None \<Rightarrow> first_some f xs | Some y \<Rightarrow> Some y)"

definition re_search :: "string \<Rightarrow> string \<Rightarrow> string list option option" where
  "re_search p s = map_option (\<lambda>ns. first_some (match_from ns s) [0 ..< Suc (length s)]) (compile p)"

section \<open>The SemVer value type (\<open>semver.VersionInfo\<close>)\<close>

text \<open>
  The \<open>semver\<close> package is a dependency of \<open>vcm.py\<close>. Its \<open>VersionInfo\<close> is modelled by
  what it is documented to do: \<open>parse\<close> accepts \<^verbatim>\<open>major.minor.patch[-prerelease][+build]\<close>
  where a numeric field is \<^verbatim>\<open>0\<close> or has no leading zero, \<open>str\<close> prints it back, the bumps
  reset what follows the bumped field, and comparison is SemVer precedence.
\<close>

record version =
  major :: nat
  minor :: nat
  patch :: nat
  prerelease :: "string option"
  build :: "string option"

text \<open>\<^verbatim>\<open>s.split(c)\<close>.\<close>

fun split_on :: "char \<Rightarrow> string \<Rightarrow> string list" where
  "split_on c [] = [[]]"
| "split_on c (x # xs) =
    (if x = c then [] # split_on c xs
     else (case split_on c xs of [] \<Rightarrow> [[x]] | y # ys \<Rightarrow> (x # y) # ys))"

text \<open>The text before the first \<open>c\<close>, and the text after it when there is one.\<close>

definition cut :: "char \<Rightarrow> string \<Rightarrow> string \<times> string option" where
  "cut c s =
     (takeWhile (\<lambda>x. x \<noteq> c) s,
      case dropWhile (\<lambda>x. x \<noteq> c) s of [] \<Rightarrow> None | _ # r \<Rightarrow> Some r)"

definition numeric_id :: "string \<Rightarrow> bool" where
  "numeric_id s = (s = ''0'' \<or> (s \<noteq> [] \<and> list_all is_digit s \<and> hd s \<noteq> CHR ''0''))"

definition id_char :: "char \<Rightarrow> bool" where
  "id_char c = (is_digit c \<or> is_lower c \<or> is_upper c \<or> c = CHR ''-'')"

definition prerelease_id :: "string \<Rightarrow> bool" where
  "prerelease_id s = (numeric_id s \<or> (s \<noteq> [] \<and> list_all id_char s \<and> \<not> list_all is_digit s))"

definition build_id :: "string \<Rightarrow> bool" where
  "build_id s = (s \<noteq> [] \<and> list_all id_char s)"

text \<open>
  \<open>VersionInfo.parse\<close>; \<open>None\<close> stands for its \<open>ValueError\<close>. The package matches its
  pattern with a closing \<^verbatim>\<open>$\<close>, which lets one final newline through.
\<close>

definition semver_parse :: "string \<Rightarrow> version option" where
  "semver_parse s =
     (let s0 = (if s \<noteq> [] \<and> last s = newline then butlast s else s);
          (s1, bld) = cut (CHR ''+'') s0;
          (core, pre) = cut (CHR ''-'') s1
      in case split_on (CHR ''.'') core of
           [a, b, c] \<Rightarrow>
             if numeric_id a \<and> numeric_id b \<and> numeric_id c
                \<and> (case pre of None \<Rightarrow> True
                    | Some p \<Rightarrow> list_all prerelease_id (split_on (CHR ''.'') p))
                \<and> (case bld of None \<Rightarrow> True
                    | Some x \<Rightarrow> list_all build_id (split_on (CHR ''.'') x))
             then Some \<lparr>major = int_of_str a, minor = int_of_str b, patch = int_of_str c,
                        prerelease = pre, build = bld\<rparr>
             else None
         | _ \<Rightarrow> None)"

text \<open>\<^verbatim>\<open>"{major}.{minor}.{patch}"\<close>, the base version as the f-strings of \<open>vcm.py\<close> print it.\<close>

definition base_str :: "version \<Rightarrow> string" where
  "base_str v = str_nat (major v) @ ''.'' @ str_nat (minor v) @ ''.'' @ str_nat (patch v)"

text \<open>\<open>str(v)\<close>: an absent or empty prerelease or build is not printed.\<close>

definition str_version :: "version \<Rightarrow> string" where
  "str_version v =
     base_str v
     @ (case prerelease v of None \<Rightarrow> [] | Some p \<Rightarrow> if p = [] then [] else ''-'' @ p)
     @ (case build v of None \<Rightarrow> [] | Some b \<Rightarrow> if b = [] then [] else ''+'' @ b)"

definition bump_major :: "version \<Rightarrow> version" where
  "bump_major v = \<lparr>major = major v + 1, minor = 0, patch = 0, prerelease = None, build = None\<rparr>"

definition bump_minor :: "version \<Rightarrow> version" where
  "bump_minor v =
     \<lparr>major = major v, minor = minor v + 1, patch = 0, prerelease = None, build = None\<rparr>"

definition bump_patch :: "version \<Rightarrow> version" where
  "bump_patch v =
     \<lparr>major = major v, minor = minor v, patch = patch v + 1, prerelease = None, build = None\<rparr>"

text \<open>
  The package's \<open>_increment_string\<close>: the last run of digits in the string is read as a
  number and replaced by its successor, written over the run from its right end
  (\<^verbatim>\<open>string[:max(end - len(next), start)] + next + string[end:]\<close>).
\<close>

definition increment_string :: "string \<Rightarrow> string" where
  "increment_string s =
     (let upto = rev (dropWhile (\<lambda>c. \<not> is_digit c) (rev s));
          num = rev (takeWhile is_digit (rev upto));
          e = length upto;
          b = e - length num
      in if num = [] then s
         else (let nxt = str_nat (int_of_str num + 1)
               in take (max (e - length nxt) b) s @ nxt @ drop e s))"

text \<open>\<open>bump_prerelease()\<close> with its default token \<^verbatim>\<open>rc\<close>; the build is dropped.\<close>

definition bump_prerelease :: "version \<Rightarrow> version" where
  "bump_prerelease v =
     \<lparr>major = major v, minor = minor v, patch = patch v,
      prerelease = Some (increment_string (case prerelease v of None \<Rightarrow> ''rc.0'' | Some p \<Rightarrow> p)),
      build = None\<rparr>"

text \<open>
  SemVer precedence as a sort key. A numeric identifier is below an alphanumeric one,
  numeric ones compare as numbers, the others as strings, a longer list of identifiers is
  above its prefix, and a version without prerelease is above the same base with one.
\<close>

type_synonym ident = "nat \<times> nat \<times> string"

definition ident_key :: "string \<Rightarrow> ident" where
  "ident_key s = (if s \<noteq> [] \<and> list_all is_digit s then (0, int_of_str s, []) else (1, 0, s))"

type_synonym key = "(nat \<times> nat \<times> nat) \<times> nat \<times> ident list"

definition semver_key :: "version \<Rightarrow> key" where
  "semver_key v =
     ((major v, minor v, patch v),
      (case prerelease v of
         None \<Rightarrow> (1, [])
       | Some p \<Rightarrow> if p = [] then (1, []) else (0, map ident_key (split_on (CHR ''.'') p))))"

section \<open>Errors and the version-control backend\<close>

datatype error =
    ValueError
  | InvalidTagCreation string
  | UnboundLocalError
  | AttributeError
  | ReError
  | GitCommandError
  | BadName

definition and_then :: "error + 'a \<Rightarrow> ('a \<Rightarrow> error + 'b) \<Rightarrow> error + 'b" where
  "and_then m f = (case m of Inl e \<Rightarrow> Inl e | Inr x \<Rightarrow> f x)"

definition VersionInfo_parse :: "string \<Rightarrow> error + version" where
  "VersionInfo_parse s = (case semver_parse s of None \<Rightarrow> Inl ValueError | Some v \<Rightarrow> Inr v)"

definition compiled :: "'a option \<Rightarrow> error + 'a" where
  "compiled x = (case x of None \<Rightarrow> Inl ReError | Some y \<Rightarrow> Inr y)"

type_synonym commit_id = nat

text \<open>
  Modelled from the spec: the version-control backend (GitPython's \<open>Repo\<close>), which is not
  part of the sources. A repository is its list of tags, each a name with the commit it
  points to, and the commit \<open>HEAD\<close> points to. \<open>create_tag\<close> rejects a name that exists
  (duplicate-name) and otherwise adds the tag; \<open>commit\<close> resolves a tag name to its commit
  and fails on a name the repository does not have. Tag messages are not kept.
\<close>

record repo =
  tags :: "(string \<times> commit_id) list"
  head :: commit_id

definition tag_names :: "repo \<Rightarrow> string list" where
  "tag_names r = map fst (tags r)"

definition create_tag :: "repo \<Rightarrow> string \<Rightarrow> commit_id \<Rightarrow> error + repo" where
  "create_tag r name c =
     (if name \<in> set (tag_names r) then Inl GitCommandError
      else Inr (r\<lparr>tags := tags r @ [(name, c)]\<rparr>))"

definition commit :: "repo \<Rightarrow> string \<Rightarrow> error + commit_id" where
  "commit r name = (case map_of (tags r) name of None \<Rightarrow> Inl BadName | Some c \<Rightarrow> Inr c)"

text \<open>
  The end of every operation that creates a tag: \<^verbatim>\<open>self.repo.create_tag(x, ...); return x\<close>.
  An exception leaves the repository as it was.
\<close>

definition create_and_return :: "repo \<Rightarrow> string \<Rightarrow> error + commit_id \<Rightarrow> (error + string) \<times> repo" where
  "create_and_return r name c =
     (case and_then c (create_tag r name) of
        Inl e \<Rightarrow> (Inl e, r)
      | Inr r' \<Rightarrow> (Inr name, r'))"

section \<open>\<open>VersionControlManager\<close>\<close>

text \<open>The pieces the pattern strings of \<open>vcm.py\<close> are made of: \<^verbatim>\<open>(\d+)\<close> and \<^verbatim>\<open>\.\<close>.\<close>

definition num :: string where
  "num = ''('' @ backslash # ''d+)''"

definition dot :: string where
  "dot = [backslash, CHR ''.'']"

text \<open>\<^verbatim>\<open>^(\d+)\.(\d+)\.(\d+)-([a-z]+)\.(\d+)$\<close>\<close>

definition prerelease_pattern :: string where
  "prerelease_pattern = ''^'' @ num @ dot @ num @ dot @ num @ ''-([a-z]+)'' @ dot @ num @ ''$''"

text \<open>\<^verbatim>\<open>^(\d+)\.(\d+)\.(\d+)$\<close>\<close>

definition production_pattern :: string where
  "production_pattern = ''^'' @ num @ dot @ num @ dot @ num @ ''$''"

text \<open>\<^verbatim>\<open>^(\d+)\.(\d+)\.(\d+)-(rc|patch)\.(\d+)$\<close>\<close>

definition rc_patch_pattern :: string where
  "rc_patch_pattern = ''^'' @ num @ dot @ num @ dot @ num @ ''-(rc|patch)'' @ dot @ num @ ''$''"

text \<open>\<^verbatim>\<open>if not re.fullmatch(pattern, tag): raise ValueError\<close>\<close>

definition require_fullmatch :: "string \<Rightarrow> string \<Rightarrow> error + unit" where
  "require_fullmatch pattern tag =
     and_then (compiled (re_fullmatch pattern tag))
       (\<lambda>m. if m = None then Inl ValueError else Inr ())"

definition get_init_rc_tag :: "string \<Rightarrow> error + string" where
  "get_init_rc_tag tag =
     and_then (require_fullmatch prerelease_pattern tag) (\<lambda>_.
     and_then (VersionInfo_parse tag) (\<lambda>current_tag.
       Inr (base_str current_tag @ ''-rc.1'')))"

text \<open>
  \<^verbatim>\<open>any(re.search(pattern, t.name.strip()) for t in self.repo.tags)\<close>: the pattern is
  compiled when the first tag is searched, and the loop stops at the first hit.
\<close>

fun any_search :: "string \<Rightarrow> string list \<Rightarrow> error + bool" where
  "any_search pattern [] = Inr False"
| "any_search pattern (t # ts) =
     and_then (compiled (re_search pattern (strip t)))
       (\<lambda>m. if m \<noteq> None then Inr True else any_search pattern ts)"

definition find_tag :: "repo \<Rightarrow> string \<Rightarrow> error + bool" where
  "find_tag r tag = (let pattern = ''^'' @ tag @ ''$'' in any_search pattern (tag_names r))"

text \<open>\<^verbatim>\<open>[tag.name.strip() for tag in self.repo.tags if re.search(pattern, tag.name)]\<close>\<close>

fun matching_tags :: "string \<Rightarrow> string list \<Rightarrow> error + string list" where
  "matching_tags pattern [] = Inr []"
| "matching_tags pattern (t # ts) =
     and_then (compiled (re_search pattern t)) (\<lambda>m.
     and_then (matching_tags pattern ts) (\<lambda>rest.
       Inr (if m \<noteq> None then strip t # rest else rest)))"

text \<open>
  \<^verbatim>\<open>sorted(tags, key=semver.VersionInfo.parse, reverse=True)\<close>: every key is computed
  first, so one tag that does not parse raises; the sort is stable, and with
  \<open>reverse\<close> it is the stable ascending sort of the reversed list, reversed.
\<close>

definition sorted_reverse :: "string list \<Rightarrow> error + string list" where
  "sorted_reverse ts =
     (case those (map semver_parse ts) of
        None \<Rightarrow> Inl ValueError
      | Some vs \<Rightarrow> Inr (map snd (rev (sort_key fst (rev (zip (map semver_key vs) ts))))))"

definition find_tag_with_pattern :: "repo \<Rightarrow> string \<Rightarrow> error + string option" where
  "find_tag_with_pattern r pattern =
     and_then (matching_tags pattern (tag_names r)) (\<lambda>ts.
     and_then (sorted_reverse ts) (\<lambda>sorted_tags.
       Inr (case sorted_tags of [] \<Rightarrow> None | t # _ \<Rightarrow> Some t)))"

definition get_current_tag :: "repo \<Rightarrow> string \<Rightarrow> bool \<Rightarrow> error + string option" where
  "get_current_tag r prerelease_tag production =
     (let dev_pattern =
        (if production then production_pattern
         else ''^'' @ num @ dot @ num @ dot @ num @ ''-'' @ prerelease_tag @ dot @ num @ ''$'')
      in find_tag_with_pattern r dev_pattern)"

text \<open>\<open>tag\<close> is optional, and \<^verbatim>\<open>if tag:\<close> takes the empty string for an absent one.\<close>

definition increment_prerelease_tag ::
  "repo \<Rightarrow> string option \<Rightarrow> string \<Rightarrow> bool \<Rightarrow> (error + string) \<times> repo" where
  "increment_prerelease_tag r tag prerelease_tag major_bump =
     (let next_tag =
        (case tag of
           None \<Rightarrow> Inr (''0.1.0-'' @ prerelease_tag @ ''.1'')
         | Some t \<Rightarrow>
             if t = [] then Inr (''0.1.0-'' @ prerelease_tag @ ''.1'')
             else
               and_then (require_fullmatch prerelease_pattern t) (\<lambda>_.
               and_then (get_init_rc_tag t) (\<lambda>rc.
               and_then (find_tag r rc) (\<lambda>found.
               and_then (VersionInfo_parse t) (\<lambda>v.
                 if found then
                   (if major_bump
                    then Inr (str_version (bump_major v) @ ''-'' @ prerelease_tag @ ''.1'')
                    else Inr (str_version (bump_minor v) @ ''-'' @ prerelease_tag @ ''.1''))
                 else Inr (str_version (bump_prerelease v)))))))
      in case next_tag of
           Inl e \<Rightarrow> (Inl e, r)
         | Inr name \<Rightarrow> create_and_return r name (Inr (head r)))"

text \<open>A result that may be \<open>None\<close>: the tag is created only when there is a name.\<close>

definition create_and_return_opt ::
  "repo \<Rightarrow> string \<Rightarrow> error + commit_id \<Rightarrow> (error + string option) \<times> repo" where
  "create_and_return_opt r name c =
     (case create_and_return r name c of
        (Inl e, r') \<Rightarrow> (Inl e, r')
      | (Inr x, r') \<Rightarrow> (Inr (Some x), r'))"

definition init_new_rc :: "repo \<Rightarrow> string \<Rightarrow> (error + string option) \<times> repo" where
  "init_new_rc r prerelease_tag =
     (case get_current_tag r prerelease_tag False of
        Inl e \<Rightarrow> (Inl e, r)
      | Inr None \<Rightarrow> (Inr None, r)
      | Inr (Some current_dev_tag) \<Rightarrow>
          if current_dev_tag = [] then (Inr None, r)
          else
            (case VersionInfo_parse current_dev_tag of
               Inl e \<Rightarrow> (Inl e, r)
             | Inr t \<Rightarrow>
                 (let init_release_tag = base_str t @ ''-rc.1''
                  in create_and_return_opt r init_release_tag (commit r current_dev_tag))))"

definition init_new_patch :: "repo \<Rightarrow> (error + string option) \<times> repo" where
  "init_new_patch r =
     (case get_current_tag r ''dev'' True of
        Inl e \<Rightarrow> (Inl e, r)
      | Inr None \<Rightarrow> (Inr None, r)
      | Inr (Some current_prod) \<Rightarrow>
          if current_prod = [] then (Inr None, r)
          else
            (let init_patch_tag = current_prod @ ''-patch.1''
             in create_and_return_opt r init_patch_tag (commit r current_prod)))"

definition get_current_rc_patch :: "repo \<Rightarrow> string \<Rightarrow> string \<Rightarrow> error + string option" where
  "get_current_rc_patch r tag prerelease_tag =
     and_then (require_fullmatch production_pattern tag) (\<lambda>_.
       (let rc_pattern = ''^'' @ tag @ ''-'' @ prerelease_tag @ dot @ num @ ''$''
        in find_tag_with_pattern r rc_pattern))"

text \<open>
  \<open>current_rc\<close> is assigned in two of the four branches only. \<open>None\<close> below is the
  variable left unbound, which the test \<^verbatim>\<open>if current_rc:\<close> then raises on;
  \<open>x and y\<close> evaluates \<open>y\<close> only when \<open>x\<close> holds.
\<close>

definition py_and :: "bool \<Rightarrow> error + bool \<Rightarrow> error + bool" where
  "py_and x y = (if x then y else Inr False)"

definition py_not :: "error + bool \<Rightarrow> error + bool" where
  "py_not y = and_then y (\<lambda>b. Inr (\<not> b))"

definition increment_rc_patch :: "repo \<Rightarrow> string \<Rightarrow> string \<Rightarrow> (error + string option) \<times> repo" where
  "increment_rc_patch r tag prerelease_tag =
     (let current_rc =
        and_then (require_fullmatch production_pattern tag) (\<lambda>_.
        and_then (py_and (prerelease_tag = ''rc'') (find_tag r tag)) (\<lambda>c1.
          if c1 then
            Inl (InvalidTagCreation
              ''Production version available. Cannot create Release Candidate version!'')
          else
            and_then (py_and (prerelease_tag = ''patch'') (py_not (find_tag r tag))) (\<lambda>c2.
              if c2 then
                Inl (InvalidTagCreation
                  ''Production version not available. Cannot create Patch version!'')
              else if prerelease_tag = ''rc'' then
                and_then (get_current_rc_patch r tag ''rc'') (\<lambda>c. Inr (Some c))
              else if prerelease_tag = ''patch'' then
                and_then (VersionInfo_parse tag) (\<lambda>v.
                and_then (find_tag r (str_version (bump_patch v))) (\<lambda>c3.
                  if c3 then
                    Inl (InvalidTagCreation
                      ''Cannot increment Patch pre-release version. Patch found in Production.'')
                  else and_then (get_current_rc_patch r tag ''patch'') (\<lambda>c. Inr (Some c))))
              else Inr None)))
      in case current_rc of
           Inl e \<Rightarrow> (Inl e, r)
         | Inr None \<Rightarrow> (Inl UnboundLocalError, r)
         | Inr (Some None) \<Rightarrow> (Inr None, r)
         | Inr (Some (Some c)) \<Rightarrow>
             if c = [] then (Inr None, r)
             else
               (case VersionInfo_parse c of
                  Inl e \<Rightarrow> (Inl e, r)
                | Inr v \<Rightarrow>
                    (let new_rc_tag = str_version (bump_prerelease v)
                     in create_and_return_opt r new_rc_tag (Inr (head r)))))"

text \<open>\<open>group n\<close> of a match object; \<open>AttributeError\<close> is \<open>.group\<close> on \<open>None\<close>.\<close>

definition group :: "string list option \<Rightarrow> nat \<Rightarrow> error + string" where
  "group m n = (case m of None \<Rightarrow> Inl AttributeError | Some gs \<Rightarrow> Inr (gs ! n))"

definition create_prod_tag :: "repo \<Rightarrow> string \<Rightarrow> (error + string) \<times> repo" where
  "create_prod_tag r tag =
     (let new_prod_tag =
        and_then (require_fullmatch rc_patch_pattern tag) (\<lambda>_.
        and_then (compiled (re_match rc_patch_pattern tag)) (\<lambda>m.
        and_then (group m 4) (\<lambda>g.
          if g = ''patch'' then
            and_then (VersionInfo_parse tag) (\<lambda>v. Inr (str_version (bump_patch v)))
          else
            and_then (VersionInfo_parse tag) (\<lambda>t. Inr (base_str t)))))
      in case new_prod_tag of
           Inl e \<Rightarrow> (Inl e, r)
         | Inr name \<Rightarrow> create_and_return r name (commit r tag))"

section \<open>Notions the statements use\<close>

text \<open>
  A tag name that \<open>find_tag\<close> puts between \<^verbatim>\<open>^\<close> and \<^verbatim>\<open>$\<close> is read as a pattern. When it
  is made of letters, digits, hyphens and dots only, each dot matches any character but a
  newline and every other character matches itself: \<open>wild p s\<close> says that \<open>s\<close> is matched by
  the name \<open>p\<close> read this way.
\<close>

definition simple :: "char \<Rightarrow> bool" where
  "simple c = (is_digit c \<or> is_lower c \<or> is_upper c \<or> c = CHR ''-'' \<or> c = CHR ''.'')"

definition tag_atom :: "char \<Rightarrow> atom" where
  "tag_atom c = (if c = CHR ''.'' then AnyChar else Lit c)"

definition wild :: "string \<Rightarrow> string \<Rightarrow> bool" where
  "wild p s = list_all2 (\<lambda>c x. atom_ok (tag_atom c) x) p s"

text \<open>
  The data model of the specification: a tag has the production shape or the prerelease
  shape. A repository is well-formed when every tag name in it has one of them.
\<close>

definition grammar_tag :: "string \<Rightarrow> bool" where
  "grammar_tag t =
     (require_fullmatch production_pattern t = Inr ()
      \<or> require_fullmatch prerelease_pattern t = Inr ())"

definition wf_repo :: "repo \<Rightarrow> bool" where
  "wf_repo r = list_all grammar_tag (tag_names r)"

text \<open>The precedence key of a tag name that parses as SemVer.\<close>

definition key_of :: "string \<Rightarrow> key" where
  "key_of t = semver_key (the (semver_parse t))"

section \<open>Exceptions: which ones an operation can raise\<close>

lemma and_then_simps [simp]:
  "and_then (Inl e) f = Inl e" "and_then (Inr x) f = f x"
  by (simp_all add: and_then_def)

lemma and_then_Inr_iff: "and_then m f = Inr y \<longleftrightarrow> (\<exists>x. m = Inr x \<and> f x = Inr y)"
  by (cases m) simp_all

lemma and_then_Inl_iff:
  "and_then m f = Inl e \<longleftrightarrow> m = Inl e \<or> (\<exists>x. m = Inr x \<and> f x = Inl e)"
  by (cases m) simp_all

lemma compiled_not_unbound: "compiled x \<noteq> Inl UnboundLocalError"
  by (cases x) (simp_all add: compiled_def)

lemma any_search_not_unbound: "any_search p ts \<noteq> Inl UnboundLocalError"
  by (induction ts) (auto simp: and_then_Inl_iff compiled_not_unbound)

lemma find_tag_not_unbound: "find_tag r t \<noteq> Inl UnboundLocalError"
  by (simp add: find_tag_def any_search_not_unbound)

lemma matching_tags_not_unbound: "matching_tags p ts \<noteq> Inl UnboundLocalError"
  by (induction ts) (auto simp: and_then_Inl_iff compiled_not_unbound)

lemma sorted_reverse_not_unbound: "sorted_reverse ts \<noteq> Inl UnboundLocalError"
  by (simp add: sorted_reverse_def split: option.splits)

lemma find_tag_with_pattern_not_unbound: "find_tag_with_pattern r p \<noteq> Inl UnboundLocalError"
  by (auto simp: find_tag_with_pattern_def and_then_Inl_iff matching_tags_not_unbound
      sorted_reverse_not_unbound)

lemma require_fullmatch_not_unbound: "require_fullmatch p t \<noteq> Inl UnboundLocalError"
  by (auto simp: require_fullmatch_def and_then_Inl_iff compiled_not_unbound)

lemma get_current_rc_patch_not_unbound: "get_current_rc_patch r t c \<noteq> Inl UnboundLocalError"
  by (auto simp: get_current_rc_patch_def and_then_Inl_iff require_fullmatch_not_unbound
      find_tag_with_pattern_not_unbound)

lemma VersionInfo_parse_not_unbound: "VersionInfo_parse s \<noteq> Inl UnboundLocalError"
  by (simp add: VersionInfo_parse_def split: option.splits)

lemma create_and_return_not_unbound:
  "c \<noteq> Inl UnboundLocalError \<Longrightarrow> fst (create_and_return r n c) \<noteq> Inl UnboundLocalError"
  by (cases c) (auto simp: create_and_return_def create_tag_def split: sum.splits)

lemma create_and_return_opt_not_unbound:
  "c \<noteq> Inl UnboundLocalError \<Longrightarrow> fst (create_and_return_opt r n c) \<noteq> Inl UnboundLocalError"
  using create_and_return_not_unbound [of c r n]
  by (auto simp: create_and_return_opt_def split: prod.splits sum.splits)

section \<open>The matcher, one node at a time\<close>

lemma m_many_set:
  "r \<in> set (m_many a s) \<longleftrightarrow> (\<exists>p. p \<noteq> [] \<and> list_all (atom_ok a) p \<and> s = p @ r)"
proof (induction s)
  case Nil
  then show ?case by simp
next
  case (Cons x xs)
  show ?case
  proof (cases "atom_ok a x")
    case True
    have "(\<exists>p. p \<noteq> [] \<and> list_all (atom_ok a) p \<and> x # xs = p @ r)
          \<longleftrightarrow> r = xs \<or> (\<exists>p. p \<noteq> [] \<and> list_all (atom_ok a) p \<and> xs = p @ r)"
      (is "?L \<longleftrightarrow> ?R")
    proof
      assume ?L
      then obtain p where p: "p \<noteq> []" "list_all (atom_ok a) p" "x # xs = p @ r" by blast
      then obtain p' where p': "p = x # p'" "xs = p' @ r"
        by (cases p) auto
      show ?R
      proof (cases "p' = []")
        case True
        with p' show ?thesis by simp
      next
        case False
        with p p' show ?thesis by auto
      qed
    next
      assume ?R
      then show ?L
      proof
        assume "r = xs"
        then have "[x] \<noteq> [] \<and> list_all (atom_ok a) [x] \<and> x # xs = [x] @ r"
          using True by simp
        then show ?L by blast
      next
        assume "\<exists>p. p \<noteq> [] \<and> list_all (atom_ok a) p \<and> xs = p @ r"
        then obtain p where "p \<noteq> []" "list_all (atom_ok a) p" "xs = p @ r" by blast
        then have "x # p \<noteq> [] \<and> list_all (atom_ok a) (x # p) \<and> x # xs = (x # p) @ r"
          using True by simp
        then show ?L by blast
      qed
    qed
    with True Cons show ?thesis by auto
  next
    case False
    have "\<not> (\<exists>p. p \<noteq> [] \<and> list_all (atom_ok a) p \<and> x # xs = p @ r)"
    proof
      assume "\<exists>p. p \<noteq> [] \<and> list_all (atom_ok a) p \<and> x # xs = p @ r"
      then obtain p where "p \<noteq> []" "list_all (atom_ok a) p" "x # xs = p @ r" by blast
      then show False using False by (cases p) auto
    qed
    with False show ?thesis by simp
  qed
qed

lemma m_nodes_nil: "(r, cs) \<in> set (m_nodes n [] st) \<longleftrightarrow> st = (r, cs)"
  by auto

lemma m_nodes_group:
  "(r, cs) \<in> set (m_nodes n (Group alts # ns) (s, caps))
   \<longleftrightarrow> (\<exists>alt s'. alt \<in> set alts \<and> s' \<in> set (m_seq n alt s)
          \<and> (r, cs) \<in> set (m_nodes n ns (s', caps @ [take (length s - length s') s])))"
  by auto

lemma m_nodes_many:
  "(r, cs) \<in> set (m_nodes n (Group [[Many a]] # ns) (s, caps))
   \<longleftrightarrow> (\<exists>p s'. p \<noteq> [] \<and> list_all (atom_ok a) p \<and> s = p @ s'
                \<and> (r, cs) \<in> set (m_nodes n ns (s', caps @ [p])))"
  (is "?L \<longleftrightarrow> ?R")
proof
  assume ?L
  then obtain s' where s': "s' \<in> set (m_many a s)"
    and m: "(r, cs) \<in> set (m_nodes n ns (s', caps @ [take (length s - length s') s]))"
    unfolding m_nodes_group by auto
  from s' obtain p where p: "p \<noteq> []" "list_all (atom_ok a) p" "s = p @ s'"
    unfolding m_many_set by blast
  then have "take (length s - length s') s = p" by simp
  with m p show ?R by auto
next
  assume ?R
  then obtain p s' where p: "p \<noteq> []" "list_all (atom_ok a) p" "s = p @ s'"
    and m: "(r, cs) \<in> set (m_nodes n ns (s', caps @ [p]))" by blast
  from p have "s' \<in> set (m_many a s)" unfolding m_many_set by blast
  moreover from p have "take (length s - length s') s = p" by simp
  ultimately show ?L
    unfolding m_nodes_group using m by (intro exI [of _ "[Many a]"] exI [of _ s']) simp
qed

lemma m_nodes_one:
  "(r, cs) \<in> set (m_nodes n (Item (One a) # ns) (s, caps))
   \<longleftrightarrow> (\<exists>c s'. s = c # s' \<and> atom_ok a c \<and> (r, cs) \<in> set (m_nodes n ns (s', caps)))"
  by (cases s) auto

lemma m_nodes_bol:
  "(r, cs) \<in> set (m_nodes n (Item Bol # ns) (s, caps))
   \<longleftrightarrow> length s = n \<and> (r, cs) \<in> set (m_nodes n ns (s, caps))"
  by auto

lemma m_nodes_eol:
  "(r, cs) \<in> set (m_nodes n (Item Eol # ns) (s, caps))
   \<longleftrightarrow> (s = [] \<or> s = [newline]) \<and> (r, cs) \<in> set (m_nodes n ns (s, caps))"
  by auto

lemma m_seq_lits:
  "s' \<in> set (m_seq n (map (\<lambda>c. One (Lit c)) w) s) \<longleftrightarrow> s = w @ s'"
proof (induction w arbitrary: s)
  case Nil
  then show ?case by auto
next
  case (Cons c w)
  then show ?case by (cases s) auto
qed

lemma m_nodes_alts:
  "(r, cs) \<in> set (m_nodes n (Group (map (map (\<lambda>c. One (Lit c))) ws) # ns) (s, caps))
   \<longleftrightarrow> (\<exists>w s'. w \<in> set ws \<and> s = w @ s' \<and> (r, cs) \<in> set (m_nodes n ns (s', caps @ [w])))"
  (is "?L \<longleftrightarrow> ?R")
proof
  assume ?L
  then obtain w s' where w: "w \<in> set ws" "s' \<in> set (m_seq n (map (\<lambda>c. One (Lit c)) w) s)"
    and m: "(r, cs) \<in> set (m_nodes n ns (s', caps @ [take (length s - length s') s]))"
    unfolding m_nodes_group by auto
  from w have "s = w @ s'" by (simp add: m_seq_lits)
  with w m show ?R by auto
next
  assume ?R
  then obtain w s' where w: "w \<in> set ws" "s = w @ s'"
    and m: "(r, cs) \<in> set (m_nodes n ns (s', caps @ [w]))" by blast
  from w have "s' \<in> set (m_seq n (map (\<lambda>c. One (Lit c)) w) s)" by (simp add: m_seq_lits)
  moreover from w have "take (length s - length s') s = w" by simp
  moreover from w have "map (\<lambda>c. One (Lit c)) w \<in> set (map (map (\<lambda>c. One (Lit c))) ws)" by simp
  ultimately show ?L
    unfolding m_nodes_group using m by metis
qed

lemmas m_steps = m_nodes_nil m_nodes_many m_nodes_one m_nodes_bol m_nodes_eol

lemma digits_alt: "list_all (atom_ok Digit) p = list_all is_digit p"
  by (induction p) auto

lemma lowers_alt: "list_all (atom_ok (Range (CHR ''a'') (CHR ''z''))) p = list_all is_lower p"
  by (induction p) (auto simp: is_lower_def)

lemma compile_production:
  "compile production_pattern =
     Some [Item Bol, Group [[Many Digit]], Item (One (Lit (CHR ''.''))), Group [[Many Digit]],
           Item (One (Lit (CHR ''.''))), Group [[Many Digit]], Item Eol]"
  by code_simp

lemma compile_prerelease:
  "compile prerelease_pattern =
     Some [Item Bol, Group [[Many Digit]], Item (One (Lit (CHR ''.''))), Group [[Many Digit]],
           Item (One (Lit (CHR ''.''))), Group [[Many Digit]], Item (One (Lit (CHR ''-''))),
           Group [[Many (Range (CHR ''a'') (CHR ''z''))]], Item (One (Lit (CHR ''.''))),
           Group [[Many Digit]], Item Eol]"
  by code_simp

lemma compile_rc_patch:
  "compile rc_patch_pattern =
     Some [Item Bol, Group [[Many Digit]], Item (One (Lit (CHR ''.''))), Group [[Many Digit]],
           Item (One (Lit (CHR ''.''))), Group [[Many Digit]], Item (One (Lit (CHR ''-''))),
           Group (map (map (\<lambda>c. One (Lit c))) [''rc'', ''patch'']), Item (One (Lit (CHR ''.''))),
           Group [[Many Digit]], Item Eol]"
  by code_simp

lemma production_nodes_iff:
  "(r, caps) \<in> set (m_nodes (length t)
       [Item Bol, Group [[Many Digit]], Item (One (Lit (CHR ''.''))), Group [[Many Digit]],
        Item (One (Lit (CHR ''.''))), Group [[Many Digit]], Item Eol] (t, []))
   \<longleftrightarrow> (\<exists>a b c. digits a \<and> digits b \<and> digits c \<and> t = a @ ''.'' @ b @ ''.'' @ c @ r
           \<and> caps = [a, b, c] \<and> (r = [] \<or> r = [newline]))"
  unfolding m_steps digits_alt digits_def
  by auto

lemma prerelease_nodes_iff:
  "(r, caps) \<in> set (m_nodes (length t)
       [Item Bol, Group [[Many Digit]], Item (One (Lit (CHR ''.''))), Group [[Many Digit]],
           Item (One (Lit (CHR ''.''))), Group [[Many Digit]], Item (One (Lit (CHR ''-''))),
           Group [[Many (Range (CHR ''a'') (CHR ''z''))]], Item (One (Lit (CHR ''.''))),
           Group [[Many Digit]], Item Eol] (t, []))
   \<longleftrightarrow> (\<exists>a b c ch n. digits a \<and> digits b \<and> digits c \<and> lowers ch \<and> digits n
           \<and> t = a @ ''.'' @ b @ ''.'' @ c @ ''-'' @ ch @ ''.'' @ n @ r
           \<and> caps = [a, b, c, ch, n] \<and> (r = [] \<or> r = [newline]))"
  unfolding m_steps digits_alt lowers_alt digits_def lowers_def
  by auto

lemma rc_patch_nodes_iff:
  "(r, caps) \<in> set (m_nodes (length t)
       [Item Bol, Group [[Many Digit]], Item (One (Lit (CHR ''.''))), Group [[Many Digit]],
           Item (One (Lit (CHR ''.''))), Group [[Many Digit]], Item (One (Lit (CHR ''-''))),
           Group (map (map (\<lambda>c. One (Lit c))) [''rc'', ''patch'']), Item (One (Lit (CHR ''.''))),
           Group [[Many Digit]], Item Eol] (t, []))
   \<longleftrightarrow> (\<exists>a b c ch n. digits a \<and> digits b \<and> digits c \<and> (ch = ''rc'' \<or> ch = ''patch'') \<and> digits n
           \<and> t = a @ ''.'' @ b @ ''.'' @ c @ ''-'' @ ch @ ''.'' @ n @ r
           \<and> caps = [a, b, c, ch, n] \<and> (r = [] \<or> r = [newline]))"
  unfolding m_steps m_nodes_alts digits_alt digits_def
  by auto

section \<open>Decimal numerals and splitting\<close>

lemma is_digit_digit_char: "d < 10 \<Longrightarrow> is_digit (digit_char d)"
  by (simp add: is_digit_def digit_char_def)

lemma digit_val_digit_char: "d < 10 \<Longrightarrow> digit_val (digit_char d) = d"
  by (simp add: digit_val_def digit_char_def)

lemma str_nat_nonempty: "str_nat n \<noteq> []"
  by (subst str_nat.simps) simp

lemma str_nat_digits: "list_all is_digit (str_nat n)"
proof (induction n rule: str_nat.induct)
  case (1 n)
  show ?case
  proof (cases "n < 10")
    case True
    then show ?thesis by (subst str_nat.simps) (simp add: is_digit_digit_char)
  next
    case False
    with 1 show ?thesis by (subst str_nat.simps) (simp add: is_digit_digit_char)
  qed
qed

lemma digits_str_nat: "digits (str_nat n)"
  by (simp add: digits_def str_nat_nonempty str_nat_digits)

lemma int_of_str_snoc: "int_of_str (s @ [c]) = 10 * int_of_str s + digit_val c"
  by (simp add: int_of_str_def)

lemma int_of_str_str_nat: "int_of_str (str_nat n) = n"
proof (induction n rule: str_nat.induct)
  case (1 n)
  show ?case
  proof (cases "n < 10")
    case True
    then show ?thesis
      by (subst str_nat.simps) (simp add: int_of_str_def digit_val_digit_char)
  next
    case False
    with 1 show ?thesis
      by (subst str_nat.simps) (simp add: int_of_str_snoc digit_val_digit_char)
  qed
qed

lemma str_nat_inj: "str_nat m = str_nat n \<Longrightarrow> m = n"
  by (metis int_of_str_str_nat)

lemma of_char_digit_char: "d < 10 \<Longrightarrow> (of_char (digit_char d) :: nat) = 48 + d"
  by (simp add: digit_char_def)

lemma digit_char_zero: "d < 10 \<Longrightarrow> digit_char d = CHR ''0'' \<longleftrightarrow> d = 0"
proof -
  assume d: "d < 10"
  have "digit_char d = CHR ''0'' \<longleftrightarrow> (of_char (digit_char d) :: nat) = of_char (CHR ''0'')"
    by (simp only: of_char_eq_iff)
  also have "\<dots> \<longleftrightarrow> d = 0" using d by (simp add: of_char_digit_char)
  finally show ?thesis .
qed

lemma numeric_id_str_nat: "numeric_id (str_nat n)"
proof (induction n rule: str_nat.induct)
  case (1 n)
  show ?case
  proof (cases "n < 10")
    case True
    then have "str_nat n = [digit_char n]" by (subst str_nat.simps) simp
    with True show ?thesis
      by (auto simp: numeric_id_def is_digit_digit_char digit_char_zero)
  next
    case False
    then have eq: "str_nat n = str_nat (n div 10) @ [digit_char (n mod 10)]"
      by (subst str_nat.simps) simp
    from False 1 have ih: "numeric_id (str_nat (n div 10))" by simp
    have "str_nat (n div 10) \<noteq> ''0''"
    proof
      assume "str_nat (n div 10) = ''0''"
      then have "int_of_str (str_nat (n div 10)) = int_of_str ''0''" by simp
      moreover have "int_of_str ''0'' = 0" by (simp add: int_of_str_def digit_val_def)
      ultimately have "n div 10 = 0" by (simp add: int_of_str_str_nat)
      with False show False by simp
    qed
    with ih have "hd (str_nat (n div 10)) \<noteq> CHR ''0''" by (simp add: numeric_id_def)
    then show ?thesis
      unfolding eq numeric_id_def
      using str_nat_nonempty [of "n div 10"] str_nat_digits [of "n div 10"]
      by (simp add: is_digit_digit_char)
  qed
qed

lemma not_in_digits: "list_all is_digit s \<Longrightarrow> \<not> is_digit c \<Longrightarrow> c \<notin> set s"
  by (auto simp: list_all_iff)

lemma not_in_lowers: "list_all is_lower s \<Longrightarrow> \<not> is_lower c \<Longrightarrow> c \<notin> set s"
  by (auto simp: list_all_iff)

lemma split_on_none: "c \<notin> set s \<Longrightarrow> split_on c s = [s]"
  by (induction s) auto

lemma split_on_append: "c \<notin> set a \<Longrightarrow> split_on c (a @ c # r) = a # split_on c r"
  by (induction a) auto

lemma takeWhile_neq_all: "c \<notin> set s \<Longrightarrow> takeWhile (\<lambda>x. x \<noteq> c) s = s"
  by (induction s) auto

lemma dropWhile_neq_all: "c \<notin> set s \<Longrightarrow> dropWhile (\<lambda>x. x \<noteq> c) s = []"
  by (induction s) auto

lemma takeWhile_neq_append: "c \<notin> set a \<Longrightarrow> takeWhile (\<lambda>x. x \<noteq> c) (a @ c # r) = a"
  by (induction a) auto

lemma dropWhile_neq_append: "c \<notin> set a \<Longrightarrow> dropWhile (\<lambda>x. x \<noteq> c) (a @ c # r) = c # r"
  by (induction a) auto

lemma cut_none: "c \<notin> set s \<Longrightarrow> cut c s = (s, None)"
  by (simp add: cut_def takeWhile_neq_all dropWhile_neq_all)

lemma cut_append: "c \<notin> set a \<Longrightarrow> cut c (a @ c # r) = (a, Some r)"
  by (simp add: cut_def takeWhile_neq_append dropWhile_neq_append)

section \<open>The tag grammars and \<open>VersionInfo.parse\<close> on well-formed tags\<close>

lemma require_fullmatch_iff:
  assumes "compile p = Some ns"
  shows "require_fullmatch p t =
           (if \<exists>caps. ([], caps) \<in> set (m_nodes (length t) ns (t, [])) then Inr ()
            else Inl ValueError)"
proof (cases "filter (\<lambda>st. fst st = []) (m_nodes (length t) ns (t, []))")
  case Nil
  then have "\<not> (\<exists>caps. ([], caps) \<in> set (m_nodes (length t) ns (t, [])))"
    by (auto simp: filter_empty_conv)
  with Nil show ?thesis
    by (simp add: require_fullmatch_def re_fullmatch_def compiled_def assms)
next
  case (Cons st sts)
  have "st \<in> set (st # sts)" by simp
  then have "st \<in> set (filter (\<lambda>st. fst st = []) (m_nodes (length t) ns (t, [])))"
    unfolding Cons .
  then have "st \<in> set (m_nodes (length t) ns (t, [])) \<and> fst st = []"
    by simp
  then have "([], snd st) \<in> set (m_nodes (length t) ns (t, []))"
    by (metis prod.collapse)
  then have "\<exists>caps. ([], caps) \<in> set (m_nodes (length t) ns (t, []))" by blast
  with Cons show ?thesis
    by (simp add: require_fullmatch_def re_fullmatch_def compiled_def assms)
qed

lemma production_full:
  "(\<exists>caps. ([], caps) \<in> set (m_nodes (length t)
       [Item Bol, Group [[Many Digit]], Item (One (Lit (CHR ''.''))), Group [[Many Digit]],
        Item (One (Lit (CHR ''.''))), Group [[Many Digit]], Item Eol] (t, [])))
   \<longleftrightarrow> (\<exists>a b c. digits a \<and> digits b \<and> digits c \<and> t = a @ ''.'' @ b @ ''.'' @ c)"
  (is "?L \<longleftrightarrow> ?R")
proof
  assume ?L
  then obtain a b c where "digits a" "digits b" "digits c" "t = a @ ''.'' @ b @ ''.'' @ c @ []"
    unfolding production_nodes_iff by blast
  then have "digits a \<and> digits b \<and> digits c \<and> t = a @ ''.'' @ b @ ''.'' @ c" by simp
  then show ?R by blast
next
  assume ?R
  then obtain a b c where "digits a" "digits b" "digits c" "t = a @ ''.'' @ b @ ''.'' @ c"
    by blast
  then have "([], [a, b, c]) \<in> set (m_nodes (length t)
       [Item Bol, Group [[Many Digit]], Item (One (Lit (CHR ''.''))), Group [[Many Digit]],
        Item (One (Lit (CHR ''.''))), Group [[Many Digit]], Item Eol] (t, []))"
    unfolding production_nodes_iff by simp
  then show ?L by blast
qed

lemma prerelease_full:
  "(\<exists>caps. ([], caps) \<in> set (m_nodes (length t)
       [Item Bol, Group [[Many Digit]], Item (One (Lit (CHR ''.''))), Group [[Many Digit]],
           Item (One (Lit (CHR ''.''))), Group [[Many Digit]], Item (One (Lit (CHR ''-''))),
           Group [[Many (Range (CHR ''a'') (CHR ''z''))]], Item (One (Lit (CHR ''.''))),
           Group [[Many Digit]], Item Eol] (t, [])))
   \<longleftrightarrow> (\<exists>a b c ch n. digits a \<and> digits b \<and> digits c \<and> lowers ch \<and> digits n
            \<and> t = a @ ''.'' @ b @ ''.'' @ c @ ''-'' @ ch @ ''.'' @ n)"
  (is "?L \<longleftrightarrow> ?R")
proof
  assume ?L
  then obtain a b c ch n where "digits a" "digits b" "digits c" "lowers ch" "digits n"
    "t = a @ ''.'' @ b @ ''.'' @ c @ ''-'' @ ch @ ''.'' @ n @ []"
    unfolding prerelease_nodes_iff by blast
  then have "digits a \<and> digits b \<and> digits c \<and> lowers ch \<and> digits n
      \<and> t = a @ ''.'' @ b @ ''.'' @ c @ ''-'' @ ch @ ''.'' @ n" by simp
  then show ?R by blast
next
  assume ?R
  then obtain a b c ch n where "digits a" "digits b" "digits c" "lowers ch" "digits n"
    "t = a @ ''.'' @ b @ ''.'' @ c @ ''-'' @ ch @ ''.'' @ n"
    by blast
  then have "([], [a, b, c, ch, n]) \<in> set (m_nodes (length t)
       [Item Bol, Group [[Many Digit]], Item (One (Lit (CHR ''.''))), Group [[Many Digit]],
           Item (One (Lit (CHR ''.''))), Group [[Many Digit]], Item (One (Lit (CHR ''-''))),
           Group [[Many (Range (CHR ''a'') (CHR ''z''))]], Item (One (Lit (CHR ''.''))),
           Group [[Many Digit]], Item Eol] (t, []))"
    unfolding prerelease_nodes_iff by simp
  then show ?L by blast
qed

lemma rc_patch_full:
  "(\<exists>caps. ([], caps) \<in> set (m_nodes (length t)
       [Item Bol, Group [[Many Digit]], Item (One (Lit (CHR ''.''))), Group [[Many Digit]],
           Item (One (Lit (CHR ''.''))), Group [[Many Digit]], Item (One (Lit (CHR ''-''))),
           Group (map (map (\<lambda>c. One (Lit c))) [''rc'', ''patch'']), Item (One (Lit (CHR ''.''))),
           Group [[Many Digit]], Item Eol] (t, [])))
   \<longleftrightarrow> (\<exists>a b c ch n. digits a \<and> digits b \<and> digits c \<and> (ch = ''rc'' \<or> ch = ''patch'')
            \<and> digits n \<and> t = a @ ''.'' @ b @ ''.'' @ c @ ''-'' @ ch @ ''.'' @ n)"
  (is "?L \<longleftrightarrow> ?R")
proof
  assume ?L
  then obtain a b c ch n where "digits a" "digits b" "digits c" "ch = ''rc'' \<or> ch = ''patch''"
    "digits n" "t = a @ ''.'' @ b @ ''.'' @ c @ ''-'' @ ch @ ''.'' @ n @ []"
    unfolding rc_patch_nodes_iff by blast
  then have "digits a \<and> digits b \<and> digits c \<and> (ch = ''rc'' \<or> ch = ''patch'') \<and> digits n
      \<and> t = a @ ''.'' @ b @ ''.'' @ c @ ''-'' @ ch @ ''.'' @ n" by simp
  then show ?R by blast
next
  assume ?R
  then obtain a b c ch n where "digits a" "digits b" "digits c" "ch = ''rc'' \<or> ch = ''patch''"
    "digits n" "t = a @ ''.'' @ b @ ''.'' @ c @ ''-'' @ ch @ ''.'' @ n"
    by blast
  then have "([], [a, b, c, ch, n]) \<in> set (m_nodes (length t)
       [Item Bol, Group [[Many Digit]], Item (One (Lit (CHR ''.''))), Group [[Many Digit]],
           Item (One (Lit (CHR ''.''))), Group [[Many Digit]], Item (One (Lit (CHR ''-''))),
           Group (map (map (\<lambda>c. One (Lit c))) [''rc'', ''patch'']), Item (One (Lit (CHR ''.''))),
           Group [[Many Digit]], Item Eol] (t, []))"
    unfolding rc_patch_nodes_iff by simp
  then show ?L by blast
qed

lemma require_fullmatch_production:
  "require_fullmatch production_pattern t =
     (if \<exists>a b c. digits a \<and> digits b \<and> digits c \<and> t = a @ ''.'' @ b @ ''.'' @ c
      then Inr () else Inl ValueError)"
  unfolding require_fullmatch_iff [OF compile_production] production_full ..

lemma require_fullmatch_prerelease:
  "require_fullmatch prerelease_pattern t =
     (if \<exists>a b c ch n. digits a \<and> digits b \<and> digits c \<and> lowers ch \<and> digits n
            \<and> t = a @ ''.'' @ b @ ''.'' @ c @ ''-'' @ ch @ ''.'' @ n
      then Inr () else Inl ValueError)"
  unfolding require_fullmatch_iff [OF compile_prerelease] prerelease_full ..

lemma require_fullmatch_rc_patch:
  "require_fullmatch rc_patch_pattern t =
     (if \<exists>a b c ch n. digits a \<and> digits b \<and> digits c \<and> (ch = ''rc'' \<or> ch = ''patch'')
            \<and> digits n \<and> t = a @ ''.'' @ b @ ''.'' @ c @ ''-'' @ ch @ ''.'' @ n
      then Inr () else Inl ValueError)"
  unfolding require_fullmatch_iff [OF compile_rc_patch] rc_patch_full ..

lemma not_digit_simps [simp]:
  "\<not> is_digit (CHR ''.'')" "\<not> is_digit (CHR ''-'')" "\<not> is_digit (CHR ''+'')"
  "\<not> is_digit newline"
  by (simp_all add: is_digit_def newline_def)

lemma not_lower_simps [simp]:
  "\<not> is_lower (CHR ''.'')" "\<not> is_lower (CHR ''-'')" "\<not> is_lower (CHR ''+'')"
  "\<not> is_lower newline"
  by (simp_all add: is_lower_def newline_def)

lemma id_char_simps [simp]:
  "\<not> id_char (CHR ''.'')" "id_char (CHR ''-'')" "\<not> id_char (CHR ''+'')"
  "\<not> id_char newline"
  by (simp_all add: id_char_def is_digit_def is_lower_def is_upper_def newline_def)

lemma newline_neq_dot: "newline \<noteq> CHR ''.''"
  by (simp add: newline_def)

lemma digit_not_lower: "is_digit c \<Longrightarrow> \<not> is_lower c"
  by (simp add: is_digit_def is_lower_def)

lemma numeric_id_digits: "numeric_id a \<Longrightarrow> digits a"
  by (auto simp: numeric_id_def digits_def is_digit_def)

lemma digits_not_in:
  "digits a \<Longrightarrow> CHR ''.'' \<notin> set a \<and> CHR ''-'' \<notin> set a \<and> CHR ''+'' \<notin> set a \<and> newline \<notin> set a"
  by (auto simp: digits_def list_all_iff)

lemma lowers_not_in:
  "lowers a \<Longrightarrow> CHR ''.'' \<notin> set a \<and> CHR ''-'' \<notin> set a \<and> CHR ''+'' \<notin> set a \<and> newline \<notin> set a"
  by (auto simp: lowers_def list_all_iff)

lemma prerelease_id_lowers: "lowers ch \<Longrightarrow> prerelease_id ch"
proof -
  assume l: "lowers ch"
  then obtain c cs where ch: "ch = c # cs" "is_lower c" by (cases ch) (auto simp: lowers_def)
  then have "\<not> is_digit c" using digit_not_lower by blast
  with ch have "\<not> list_all is_digit ch" by simp
  moreover from l have "list_all id_char ch"
    by (auto simp: lowers_def id_char_def list_all_iff)
  ultimately show ?thesis using l by (simp add: prerelease_id_def lowers_def)
qed

lemma semver_parse_split:
  assumes "s \<noteq> []" "last s \<noteq> newline" "CHR ''+'' \<notin> set s"
    and "cut (CHR ''-'') s = (core, pre)" "split_on (CHR ''.'') core = [a, b, c]"
    and "numeric_id a" "numeric_id b" "numeric_id c"
    and "case pre of None \<Rightarrow> True | Some p \<Rightarrow> list_all prerelease_id (split_on (CHR ''.'') p)"
  shows "semver_parse s =
           Some \<lparr>major = int_of_str a, minor = int_of_str b, patch = int_of_str c,
                 prerelease = pre, build = None\<rparr>"
  using assms by (simp add: semver_parse_def cut_none)

lemma semver_parse_production:
  assumes "numeric_id a" "numeric_id b" "numeric_id c"
  shows "semver_parse (a @ ''.'' @ b @ ''.'' @ c) =
           Some \<lparr>major = int_of_str a, minor = int_of_str b, patch = int_of_str c,
                 prerelease = None, build = None\<rparr>"
proof (rule semver_parse_split [OF _ _ _ _ _ assms])
  have d: "digits a" "digits b" "digits c" using assms by (simp_all add: numeric_id_digits)
  then have c_ne: "c \<noteq> []" by (simp add: digits_def)
  have "last c \<noteq> newline"
    using c_ne digits_not_in [OF d(3)] by (metis last_in_set)
  then show "last (a @ ''.'' @ b @ ''.'' @ c) \<noteq> newline"
    using c_ne by simp
  show "CHR ''+'' \<notin> set (a @ ''.'' @ b @ ''.'' @ c)"
    using d digits_not_in by auto
  have "CHR ''-'' \<notin> set (a @ ''.'' @ b @ ''.'' @ c)"
    using d digits_not_in by auto
  then show "cut (CHR ''-'') (a @ ''.'' @ b @ ''.'' @ c) = (a @ ''.'' @ b @ ''.'' @ c, None)"
    by (rule cut_none)
  show "split_on (CHR ''.'') (a @ ''.'' @ b @ ''.'' @ c) = [a, b, c]"
    using d digits_not_in by (simp add: split_on_append split_on_none)
qed simp_all

lemma semver_parse_prerelease:
  assumes "numeric_id a" "numeric_id b" "numeric_id c"
    and p: "list_all prerelease_id (split_on (CHR ''.'') p)"
    and pc: "list_all (\<lambda>x. id_char x \<or> x = CHR ''.'') p"
  shows "semver_parse (a @ ''.'' @ b @ ''.'' @ c @ ''-'' @ p) =
           Some \<lparr>major = int_of_str a, minor = int_of_str b, patch = int_of_str c,
                 prerelease = Some p, build = None\<rparr>"
proof (rule semver_parse_split [OF _ _ _ _ _ assms(1-3)])
  have d: "digits a" "digits b" "digits c" using assms by (simp_all add: numeric_id_digits)
  have p_ne: "p \<noteq> []"
  proof
    assume "p = []"
    with p show False by (simp add: prerelease_id_def numeric_id_def)
  qed
  have pset: "CHR ''+'' \<notin> set p" "newline \<notin> set p"
    using pc by (auto simp: list_all_iff newline_neq_dot)
  have "last p \<noteq> newline"
    using p_ne pset by (metis last_in_set)
  then show "last (a @ ''.'' @ b @ ''.'' @ c @ ''-'' @ p) \<noteq> newline"
    using p_ne by simp
  show "CHR ''+'' \<notin> set (a @ ''.'' @ b @ ''.'' @ c @ ''-'' @ p)"
    using d digits_not_in pset by auto
  have "CHR ''-'' \<notin> set (a @ ''.'' @ b @ ''.'' @ c)"
    using d digits_not_in by auto
  from cut_append [OF this, of p]
  show "cut (CHR ''-'') (a @ ''.'' @ b @ ''.'' @ c @ ''-'' @ p) = (a @ ''.'' @ b @ ''.'' @ c, Some p)"
    by simp
  show "split_on (CHR ''.'') (a @ ''.'' @ b @ ''.'' @ c) = [a, b, c]"
    using d digits_not_in by (simp add: split_on_append split_on_none)
  show "case Some p of None \<Rightarrow> True | Some p \<Rightarrow> list_all prerelease_id (split_on (CHR ''.'') p)"
    using p by simp
qed simp

lemma semver_parse_channel:
  assumes "lowers ch"
  shows "semver_parse (str_nat X @ ''.'' @ str_nat Y @ ''.'' @ str_nat Z @ ''-'' @ ch @ ''.'' @ str_nat N) =
           Some \<lparr>major = X, minor = Y, patch = Z,
                 prerelease = Some (ch @ ''.'' @ str_nat N), build = None\<rparr>"
proof -
  have dn: "CHR ''.'' \<notin> set ch" using lowers_not_in [OF assms] by simp
  have "split_on (CHR ''.'') (ch @ ''.'' @ str_nat N) = [ch, str_nat N]"
    using dn digits_not_in [OF digits_str_nat [of N]]
    by (simp add: split_on_append split_on_none)
  moreover have "prerelease_id (str_nat N)"
    by (simp add: prerelease_id_def numeric_id_str_nat)
  ultimately have p: "list_all prerelease_id (split_on (CHR ''.'') (ch @ ''.'' @ str_nat N))"
    using prerelease_id_lowers [OF assms] by simp
  have "list_all id_char ch" using assms by (auto simp: lowers_def id_char_def list_all_iff)
  moreover have "list_all id_char (str_nat N)"
    using str_nat_digits [of N] by (auto simp: id_char_def list_all_iff)
  ultimately have pc: "list_all (\<lambda>x. id_char x \<or> x = CHR ''.'') (ch @ ''.'' @ str_nat N)"
    by (auto simp: list_all_iff)
  show ?thesis
    using semver_parse_prerelease [OF numeric_id_str_nat numeric_id_str_nat numeric_id_str_nat p pc,
        of X Y Z]
    by (simp add: int_of_str_str_nat)
qed

lemma semver_parse_base:
  "semver_parse (str_nat X @ ''.'' @ str_nat Y @ ''.'' @ str_nat Z) =
     Some \<lparr>major = X, minor = Y, patch = Z, prerelease = None, build = None\<rparr>"
  using semver_parse_production [OF numeric_id_str_nat numeric_id_str_nat numeric_id_str_nat,
      of X Y Z]
  by (simp add: int_of_str_str_nat)

lemma split_unique:
  assumes "a @ c # x = a' @ c # x'" "c \<notin> set a" "c \<notin> set a'"
  shows "a = a' \<and> x = x'"
proof -
  have "takeWhile (\<lambda>y. y \<noteq> c) (a @ c # x) = a" "takeWhile (\<lambda>y. y \<noteq> c) (a' @ c # x') = a'"
    using assms(2,3) by (simp_all add: takeWhile_neq_append)
  with assms(1) have "a = a'" by metis
  with assms(1) show ?thesis by simp
qed

lemma rc_or_patch_no_dot: "ch = ''rc'' \<or> ch = ''patch'' \<Longrightarrow> CHR ''.'' \<notin> set ch"
  by auto

lemma re_match_rc_patch_group:
  assumes d: "digits a" "digits b" "digits c" "digits n" and ch: "ch = ''rc'' \<or> ch = ''patch''"
  shows "and_then (compiled (re_match rc_patch_pattern
            (a @ ''.'' @ b @ ''.'' @ c @ ''-'' @ ch @ ''.'' @ n))) (\<lambda>m. group m 4) = Inr ch"
proof -
  let ?t = "a @ ''.'' @ b @ ''.'' @ c @ ''-'' @ ch @ ''.'' @ n"
  define ns where "ns = [Item Bol, Group [[Many Digit]], Item (One (Lit (CHR ''.''))),
           Group [[Many Digit]],
           Item (One (Lit (CHR ''.''))), Group [[Many Digit]], Item (One (Lit (CHR ''-''))),
           Group (map (map (\<lambda>c. One (Lit c))) [''rc'', ''patch'']), Item (One (Lit (CHR ''.''))),
           Group [[Many Digit]], Item Eol]"
  let ?xs = "m_nodes (length ?t) ns (?t, [])"
  have "([], [a, b, c, ch, n]) \<in> set ?xs"
    unfolding ns_def rc_patch_nodes_iff using d ch by simp
  then have "?xs \<noteq> []" by (metis empty_iff list.set(1))
  then obtain st sts where xs: "?xs = st # sts" by (auto simp only: neq_Nil_conv)
  have "st \<in> set (st # sts)" by simp
  then have "st \<in> set ?xs" unfolding xs .
  then have "(fst st, snd st) \<in> set ?xs" by simp
  then obtain a' b' c' ch' n' where d': "digits a'" "digits b'" "digits c'" "digits n'"
    and ch': "ch' = ''rc'' \<or> ch' = ''patch''"
    and t: "?t = a' @ ''.'' @ b' @ ''.'' @ c' @ ''-'' @ ch' @ ''.'' @ n' @ fst st"
    and caps: "snd st = [a', b', c', ch', n']"
    unfolding ns_def rc_patch_nodes_iff by blast
  from t have t1: "a @ CHR ''.'' # (b @ ''.'' @ c @ ''-'' @ ch @ ''.'' @ n)
      = a' @ CHR ''.'' # (b' @ ''.'' @ c' @ ''-'' @ ch' @ ''.'' @ n' @ fst st)" by simp
  from split_unique [OF t1] digits_not_in [OF d(1)] digits_not_in [OF d'(1)]
  have t2: "b @ CHR ''.'' # (c @ ''-'' @ ch @ ''.'' @ n)
      = b' @ CHR ''.'' # (c' @ ''-'' @ ch' @ ''.'' @ n' @ fst st)" by simp
  from split_unique [OF t2] digits_not_in [OF d(2)] digits_not_in [OF d'(2)]
  have t3: "c @ CHR ''-'' # (ch @ ''.'' @ n) = c' @ CHR ''-'' # (ch' @ ''.'' @ n' @ fst st)"
    by simp
  from split_unique [OF t3] digits_not_in [OF d(3)] digits_not_in [OF d'(3)]
  have t4: "ch @ CHR ''.'' # n = ch' @ CHR ''.'' # (n' @ fst st)" by simp
  from split_unique [OF t4] rc_or_patch_no_dot [OF ch] rc_or_patch_no_dot [OF ch']
  have 4: "ch = ch'" by simp
  have "match_from ns ?t 0 = Some (match_obj ?t 0 st)"
    using xs by (simp add: match_from_def)
  moreover have "match_obj ?t 0 st ! 4 = ch"
    using caps 4 by (simp add: match_obj_def)
  moreover have "compile rc_patch_pattern = Some ns"
    unfolding ns_def by (rule compile_rc_patch)
  ultimately show ?thesis
    by (simp add: re_match_def compiled_def group_def)
qed

lemma base_str_simp:
  "base_str \<lparr>major = X, minor = Y, patch = Z, prerelease = p, build = q\<rparr>
     = str_nat X @ ''.'' @ str_nat Y @ ''.'' @ str_nat Z"
  by (simp add: base_str_def)

lemma require_fullmatch_prerelease_ok:
  "lowers ch \<Longrightarrow> require_fullmatch prerelease_pattern
     (str_nat X @ ''.'' @ str_nat Y @ ''.'' @ str_nat Z @ ''-'' @ ch @ ''.'' @ str_nat N) = Inr ()"
  unfolding require_fullmatch_prerelease using digits_str_nat by (simp; blast)

lemma require_fullmatch_rc_patch_ok:
  "ch = ''rc'' \<or> ch = ''patch'' \<Longrightarrow> require_fullmatch rc_patch_pattern
     (str_nat X @ ''.'' @ str_nat Y @ ''.'' @ str_nat Z @ ''-'' @ ch @ ''.'' @ str_nat N) = Inr ()"
  unfolding require_fullmatch_rc_patch using digits_str_nat by (simp; blast)

lemma require_fullmatch_production_ok:
  "require_fullmatch production_pattern (str_nat X @ ''.'' @ str_nat Y @ ''.'' @ str_nat Z) = Inr ()"
  unfolding require_fullmatch_production using digits_str_nat by (simp; blast)

lemma lowers_rc_patch: "ch = ''rc'' \<or> ch = ''patch'' \<Longrightarrow> lowers ch"
  by (auto simp: lowers_def is_lower_def)

lemma str_version_bump_patch:
  "str_version (bump_patch \<lparr>major = X, minor = Y, patch = Z, prerelease = p, build = q\<rparr>)
     = str_nat X @ ''.'' @ str_nat Y @ ''.'' @ str_nat (Z + 1)"
  by (simp add: str_version_def bump_patch_def base_str_def)

lemma create_prod_tag_ok:
  assumes ch: "ch = ''rc'' \<or> ch = ''patch''"
  shows "create_prod_tag r (str_nat X @ ''.'' @ str_nat Y @ ''.'' @ str_nat Z @ ''-'' @ ch @ ''.'' @ str_nat N)
     = create_and_return r
         (str_nat X @ ''.'' @ str_nat Y @ ''.'' @ str_nat (if ch = ''patch'' then Z + 1 else Z))
         (commit r (str_nat X @ ''.'' @ str_nat Y @ ''.'' @ str_nat Z @ ''-'' @ ch @ ''.'' @ str_nat N))"
proof -
  have g: "and_then (compiled (re_match rc_patch_pattern
            (str_nat X @ ''.'' @ str_nat Y @ ''.'' @ str_nat Z @ ''-'' @ ch @ ''.'' @ str_nat N)))
              (\<lambda>m. and_then (group m 4) f) = f ch" for f
    using re_match_rc_patch_group [OF digits_str_nat digits_str_nat digits_str_nat digits_str_nat ch,
        of X Y Z N]
    by (auto simp: and_then_def split: sum.splits)
  show ?thesis
    unfolding create_prod_tag_def require_fullmatch_rc_patch_ok [OF ch] and_then_simps g
      VersionInfo_parse_def semver_parse_channel [OF lowers_rc_patch [OF ch]]
    using ch by (auto simp: str_version_bump_patch base_str_simp)
qed

lemma create_prod_tag_no_match:
  assumes "require_fullmatch rc_patch_pattern s = Inl ValueError"
  shows "create_prod_tag r s = (Inl ValueError, r)"
  by (simp add: create_prod_tag_def assms)

lemma create_prod_tag_no_parse:
  assumes m: "require_fullmatch rc_patch_pattern s = Inr ()" and p: "semver_parse s = None"
  shows "create_prod_tag r s = (Inl ValueError, r)"
proof -
  from m obtain a b c ch n where d: "digits a" "digits b" "digits c" "digits n"
    and ch: "ch = ''rc'' \<or> ch = ''patch''"
    and s: "s = a @ ''.'' @ b @ ''.'' @ c @ ''-'' @ ch @ ''.'' @ n"
    unfolding require_fullmatch_rc_patch by (auto split: if_splits)
  have g: "and_then (compiled (re_match rc_patch_pattern s)) (\<lambda>m. and_then (group m 4) f) = f ch" for f
    using re_match_rc_patch_group [OF d ch] unfolding s
    by (auto simp: and_then_def split: sum.splits)
  show ?thesis
    unfolding create_prod_tag_def m and_then_simps g VersionInfo_parse_def p
    by simp
qed

section \<open>\<open>find_tag\<close>: a tag name read as a pattern\<close>

lemma simple_lex:
  assumes "simple c"
  shows "lex (c # cs) = map_option ((#) (TAtom (tag_atom c))) (lex cs)"
proof -
  have "c \<noteq> backslash" "c \<noteq> CHR ''[''" "c \<noteq> CHR ''^''" "c \<noteq> CHR ''$''" "c \<noteq> CHR ''(''"
    "c \<noteq> CHR '')''" "c \<noteq> CHR ''|''" "c \<noteq> CHR ''+''" "c \<notin> set ''*?{}]''"
    using assms
    by (auto simp: simple_def is_digit_def is_lower_def is_upper_def backslash_def)
  then show ?thesis by (simp add: tag_atom_def)
qed

lemma lex_simple:
  "list_all simple p \<Longrightarrow>
     lex (p @ rest) = map_option ((@) (map (\<lambda>c. TAtom (tag_atom c)) p)) (lex rest)"
proof (induction p)
  case Nil
  then show ?case by (simp add: option.map_ident)
next
  case (Cons c p)
  then have "simple c" "list_all simple p" by simp_all
  then show ?case
    using Cons.IH simple_lex [of c "p @ rest"]
    by (simp add: option.map_comp comp_def)
qed

lemma nodes_of_atom:
  "ts = [] \<or> hd ts \<noteq> TPlus \<Longrightarrow>
     nodes_of (TAtom a # ts) = map_option ((#) (Item (One a))) (nodes_of ts)"
proof (cases ts)
  case Nil
  then show ?thesis by simp
next
  case (Cons t ts')
  assume "ts = [] \<or> hd ts \<noteq> TPlus"
  with Cons have "t \<noteq> TPlus" by simp
  with Cons show ?thesis by (cases t) simp_all
qed

lemma nodes_of_atoms:
  "rest = [] \<or> hd rest \<noteq> TPlus \<Longrightarrow>
     nodes_of (map TAtom as @ rest) = map_option ((@) (map (\<lambda>a. Item (One a)) as)) (nodes_of rest)"
proof (induction as)
  case Nil
  then show ?case by (simp add: option.map_ident)
next
  case (Cons a as)
  have "map TAtom as @ rest = [] \<or> hd (map TAtom as @ rest) \<noteq> TPlus"
    using Cons.prems by (cases as) auto
  from nodes_of_atom [OF this, of a] Cons show ?case
    by (simp add: option.map_comp comp_def)
qed

lemma lex_bol: "lex (CHR ''^'' # cs) = map_option ((#) TBol) (lex cs)"
  by (simp add: backslash_def)

lemma lex_eol: "lex ''$'' = Some [TEol]"
  by (simp add: backslash_def)

lemma compile_simple:
  assumes "list_all simple p" "lex rest = Some ts" "ts = [] \<or> hd ts \<noteq> TPlus"
  shows "compile (''^'' @ p @ rest)
           = map_option (\<lambda>ns. Item Bol # map (\<lambda>c. Item (One (tag_atom c))) p @ ns) (nodes_of ts)"
proof -
  have "lex (''^'' @ p @ rest) = Some (TBol # map TAtom (map tag_atom p) @ ts)"
    using lex_simple [OF assms(1), of rest] assms(2) by (simp add: comp_def lex_bol del: lex.simps)
  moreover have "nodes_of (TBol # map TAtom (map tag_atom p) @ ts)
      = map_option ((#) (Item Bol)) (map_option ((@) (map (\<lambda>a. Item (One a)) (map tag_atom p))) (nodes_of ts))"
    using nodes_of_atoms [OF assms(3), of "map tag_atom p"] by simp
  ultimately show ?thesis
    by (simp add: compile_def option.map_comp comp_def)
qed

lemma compile_find_tag:
  "list_all simple tag \<Longrightarrow>
     compile (''^'' @ tag @ ''$'') = Some (Item Bol # map (\<lambda>c. Item (One (tag_atom c))) tag @ [Item Eol])"
  using compile_simple [of tag "''$''" "[TEol]"] by (simp add: lex_eol del: lex.simps)

lemma m_nodes_atoms:
  "(r, cs) \<in> set (m_nodes n (map (\<lambda>c. Item (One (f c))) p @ ns) (s, caps))
   \<longleftrightarrow> (\<exists>s1 s2. s = s1 @ s2 \<and> list_all2 (\<lambda>c x. atom_ok (f c) x) p s1
          \<and> (r, cs) \<in> set (m_nodes n ns (s2, caps)))"
proof (induction p arbitrary: s)
  case Nil
  then show ?case by simp
next
  case (Cons c p)
  have "(r, cs) \<in> set (m_nodes n (map (\<lambda>c. Item (One (f c))) (c # p) @ ns) (s, caps))
      \<longleftrightarrow> (\<exists>x s'. s = x # s' \<and> atom_ok (f c) x
            \<and> (r, cs) \<in> set (m_nodes n (map (\<lambda>c. Item (One (f c))) p @ ns) (s', caps)))"
    using m_nodes_one [of r cs n "f c" "map (\<lambda>c. Item (One (f c))) p @ ns" s caps] by simp
  also have "\<dots> \<longleftrightarrow> (\<exists>x s' s1 s2. s = x # s' \<and> atom_ok (f c) x \<and> s' = s1 @ s2
            \<and> list_all2 (\<lambda>c x. atom_ok (f c) x) p s1 \<and> (r, cs) \<in> set (m_nodes n ns (s2, caps)))"
    unfolding Cons.IH by blast
  also have "\<dots> \<longleftrightarrow> (\<exists>s1 s2. s = s1 @ s2 \<and> list_all2 (\<lambda>c x. atom_ok (f c) x) (c # p) s1
          \<and> (r, cs) \<in> set (m_nodes n ns (s2, caps)))"
    (is "?A \<longleftrightarrow> ?B")
  proof
    assume ?A
    then obtain x s' s1 s2 where "s = x # s'" "atom_ok (f c) x" "s' = s1 @ s2"
      "list_all2 (\<lambda>c x. atom_ok (f c) x) p s1" "(r, cs) \<in> set (m_nodes n ns (s2, caps))"
      by blast
    then have "s = (x # s1) @ s2 \<and> list_all2 (\<lambda>c x. atom_ok (f c) x) (c # p) (x # s1)
          \<and> (r, cs) \<in> set (m_nodes n ns (s2, caps))" by simp
    then show ?B by blast
  next
    assume ?B
    then obtain s1 s2 where s: "s = s1 @ s2" "list_all2 (\<lambda>c x. atom_ok (f c) x) (c # p) s1"
      "(r, cs) \<in> set (m_nodes n ns (s2, caps))" by blast
    then obtain x s1' where "s1 = x # s1'" "atom_ok (f c) x" "list_all2 (\<lambda>c x. atom_ok (f c) x) p s1'"
      by (auto simp: list_all2_Cons1)
    with s show ?A by auto
  qed
  finally show ?case .
qed

lemma first_some_None: "(\<forall>x \<in> set xs. f x = None) \<Longrightarrow> first_some f xs = None"
  by (induction xs) auto

lemma match_from_bol_later:
  assumes "0 < i" "i \<le> length s"
  shows "match_from (Item Bol # ns) s i = None"
proof -
  have "length (drop i s) \<noteq> length s" using assms by simp
  then show ?thesis by (simp add: match_from_def)
qed

lemma re_search_bol:
  assumes "compile p = Some (Item Bol # ns)"
  shows "re_search p s = Some (match_from (Item Bol # ns) s 0)"
proof -
  define js where "js = [Suc 0 ..< Suc (length s)]"
  have eq: "[0 ..< Suc (length s)] = 0 # js"
    unfolding js_def by (rule upt_conv_Cons) simp
  have none: "first_some (match_from (Item Bol # ns) s) js = None"
    unfolding js_def by (rule first_some_None) (auto intro: match_from_bol_later)
  show ?thesis
    unfolding re_search_def assms eq by (simp add: none split: option.splits)
qed

lemma match_from_Some_iff:
  "match_from ns s 0 \<noteq> None \<longleftrightarrow> (\<exists>st. st \<in> set (m_nodes (length s) ns (s, [])))"
  by (cases "m_nodes (length s) ns (s, [])") (auto simp: match_from_def)

lemma any_search_bol:
  assumes "compile p = Some (Item Bol # ns)"
  shows "any_search p ts
           = Inr (\<exists>t \<in> set ts. \<exists>st. st \<in> set (m_nodes (length (strip t)) (Item Bol # ns) (strip t, [])))"
proof (induction ts)
  case Nil
  then show ?case by simp
next
  case (Cons t ts)
  show ?case
    using Cons match_from_Some_iff [of "Item Bol # ns" "strip t"]
    by (simp add: re_search_bol [OF assms] compiled_def)
qed

lemma not_space_simple: "simple c \<Longrightarrow> \<not> is_space c"
  by (auto simp: simple_def is_space_def is_digit_def is_lower_def is_upper_def)

lemma strip_last: "strip t \<noteq> [] \<Longrightarrow> \<not> is_space (last (strip t))"
proof -
  assume a: "strip t \<noteq> []"
  let ?u = "dropWhile is_space (rev (dropWhile is_space t))"
  from a have u: "?u \<noteq> []" by (simp add: strip_def)
  then have "\<not> is_space (hd ?u)" by (rule hd_dropWhile)
  moreover have "last (strip t) = hd ?u" using u by (simp add: strip_def last_rev)
  ultimately show ?thesis by simp
qed

lemma strip_id: "list_all (\<lambda>c. \<not> is_space c) s \<Longrightarrow> strip s = s"
proof -
  assume a: "list_all (\<lambda>c. \<not> is_space c) s"
  have 1: "dropWhile is_space s = s" using a by (cases s) auto
  have "list_all (\<lambda>c. \<not> is_space c) (rev s)" using a by (simp add: list_all_iff)
  then have 2: "dropWhile is_space (rev s) = rev s" by (cases "rev s") auto
  show ?thesis by (simp add: strip_def 1 2)
qed

lemma strip_simple: "list_all simple s \<Longrightarrow> strip s = s"
  by (rule strip_id) (auto simp: list_all_iff not_space_simple)

lemma find_tag_iff:
  assumes "list_all simple tag"
  shows "find_tag r tag = Inr (\<exists>t \<in> set (tag_names r). wild tag (strip t))"
proof -
  let ?ns = "map (\<lambda>c. Item (One (tag_atom c))) tag @ [Item Eol]"
  have "(\<exists>st. st \<in> set (m_nodes (length (strip t)) (Item Bol # ?ns) (strip t, [])))
          \<longleftrightarrow> wild tag (strip t)" for t
  proof
    assume "\<exists>st. st \<in> set (m_nodes (length (strip t)) (Item Bol # ?ns) (strip t, []))"
    then obtain r' cs where "(r', cs) \<in> set (m_nodes (length (strip t)) (Item Bol # ?ns) (strip t, []))"
      by (metis prod.collapse)
    then obtain s1 s2 where s: "strip t = s1 @ s2" "wild tag s1" "s2 = [] \<or> s2 = [newline]"
      unfolding m_nodes_bol m_nodes_atoms m_nodes_eol m_nodes_nil wild_def by blast
    have "s2 = []"
    proof (rule ccontr)
      assume "s2 \<noteq> []"
      with s have "s2 = [newline]" by simp
      with s have "strip t \<noteq> []" "last (strip t) = newline" by simp_all
      with strip_last [of t] show False by (simp add: is_space_def newline_def)
    qed
    with s show "wild tag (strip t)" by simp
  next
    assume "wild tag (strip t)"
    then have "([], []) \<in> set (m_nodes (length (strip t)) (Item Bol # ?ns) (strip t, []))"
      unfolding m_nodes_bol m_nodes_atoms m_nodes_eol m_nodes_nil wild_def by simp
    then show "\<exists>st. st \<in> set (m_nodes (length (strip t)) (Item Bol # ?ns) (strip t, []))" by blast
  qed
  then show ?thesis
    unfolding find_tag_def Let_def any_search_bol [OF compile_find_tag [OF assms]] by simp
qed

lemma wild_self: "newline \<notin> set s \<Longrightarrow> wild s s"
  by (induction s) (auto simp: wild_def tag_atom_def)

lemma simple_not_newline: "simple c \<Longrightarrow> c \<noteq> newline"
  by (auto simp: simple_def is_digit_def is_lower_def is_upper_def newline_def)

lemma find_tag_self:
  assumes "list_all simple tag" "tag \<in> set (tag_names r)"
  shows "find_tag r tag = Inr True"
proof -
  have "newline \<notin> set tag" using assms(1) simple_not_newline by (auto simp: list_all_iff)
  then have "wild tag (strip tag)" using strip_simple [OF assms(1)] wild_self by simp
  with assms(2) show ?thesis unfolding find_tag_iff [OF assms(1)] by blast
qed

lemma simple_digits: "digits a \<Longrightarrow> list_all simple a"
  by (auto simp: digits_def simple_def list_all_iff)

lemma simple_lowers: "lowers a \<Longrightarrow> list_all simple a"
  by (auto simp: lowers_def simple_def list_all_iff)

lemma simple_production:
  "digits a \<Longrightarrow> digits b \<Longrightarrow> digits c \<Longrightarrow> list_all simple (a @ ''.'' @ b @ ''.'' @ c)"
  using simple_digits by (simp add: simple_def)

lemma simple_prerelease:
  "digits a \<Longrightarrow> digits b \<Longrightarrow> digits c \<Longrightarrow> lowers ch \<Longrightarrow> digits n
     \<Longrightarrow> list_all simple (a @ ''.'' @ b @ ''.'' @ c @ ''-'' @ ch @ ''.'' @ n)"
  using simple_digits simple_lowers by (simp add: simple_def)

lemma production_shape:
  assumes "require_fullmatch production_pattern t = Inr ()"
  obtains a b c where "digits a" "digits b" "digits c" "t = a @ ''.'' @ b @ ''.'' @ c"
  using assms unfolding require_fullmatch_production by (auto split: if_splits)

lemma prerelease_shape:
  assumes "require_fullmatch prerelease_pattern t = Inr ()"
  obtains a b c ch n where "digits a" "digits b" "digits c" "lowers ch" "digits n"
    "t = a @ ''.'' @ b @ ''.'' @ c @ ''-'' @ ch @ ''.'' @ n"
  using assms unfolding require_fullmatch_prerelease by (auto split: if_splits)

lemma simple_production_tag:
  "require_fullmatch production_pattern t = Inr () \<Longrightarrow> list_all simple t"
  by (erule production_shape) (auto simp: simple_digits simple_def)

lemma create_and_return_Inr:
  assumes "create_and_return r name c = (Inr P, r')"
  shows "P = name \<and> P \<in> set (tag_names r')"
proof (cases c)
  case (Inl e)
  with assms show ?thesis by (simp add: create_and_return_def)
next
  case (Inr k)
  with assms show ?thesis
    by (auto simp: create_and_return_def create_tag_def tag_names_def split: if_splits)
qed

lemma str_version_release:
  "str_version \<lparr>major = X, minor = Y, patch = Z, prerelease = None, build = None\<rparr>
     = str_nat X @ ''.'' @ str_nat Y @ ''.'' @ str_nat Z"
  by (simp add: str_version_def base_str_def)

lemma create_prod_tag_Inr:
  assumes "create_prod_tag r tag = (Inr P, r')"
  shows "require_fullmatch production_pattern P = Inr () \<and> P \<in> set (tag_names r')"
proof -
  define new where "new =
        and_then (require_fullmatch rc_patch_pattern tag) (\<lambda>_.
        and_then (compiled (re_match rc_patch_pattern tag)) (\<lambda>m.
        and_then (group m 4) (\<lambda>g.
          if g = ''patch'' then
            and_then (VersionInfo_parse tag) (\<lambda>v. Inr (str_version (bump_patch v)))
          else
            and_then (VersionInfo_parse tag) (\<lambda>t. Inr (base_str t)))))"
  have cp: "create_prod_tag r tag =
      (case new of Inl e \<Rightarrow> (Inl e, r) | Inr name \<Rightarrow> create_and_return r name (commit r tag))"
    by (simp add: create_prod_tag_def new_def)
  from assms obtain name where name: "new = Inr name"
    and cr: "create_and_return r name (commit r tag) = (Inr P, r')"
    unfolding cp by (cases new) auto
  from name obtain v where "name = str_version (bump_patch v) \<or> name = base_str v"
    unfolding new_def by (auto simp: and_then_Inr_iff split: if_splits)
  then have "name = str_nat (major v) @ ''.'' @ str_nat (minor v) @ ''.'' @ str_nat (patch v + 1)
      \<or> name = str_nat (major v) @ ''.'' @ str_nat (minor v) @ ''.'' @ str_nat (patch v)"
    by (auto simp: str_version_def bump_patch_def base_str_def)
  then have "require_fullmatch production_pattern name = Inr ()"
    using require_fullmatch_production_ok by metis
  with create_and_return_Inr [OF cr] show ?thesis by blast
qed

lemma increment_rc_patch_rc_exists:
  assumes "require_fullmatch production_pattern base = Inr ()" "base \<in> set (tag_names r)"
  shows "increment_rc_patch r base ''rc'' =
           (Inl (InvalidTagCreation
              ''Production version available. Cannot create Release Candidate version!''), r)"
proof -
  have "find_tag r base = Inr True"
    using find_tag_self [OF simple_production_tag [OF assms(1)] assms(2)] .
  then show ?thesis
    by (simp add: increment_rc_patch_def assms(1) py_and_def)
qed

lemma wild_length: "wild p t \<Longrightarrow> length t = length p"
  by (simp add: wild_def list_all2_lengthD)

lemma wild_Cons:
  "wild (c # p) s \<longleftrightarrow> (\<exists>x t. s = x # t \<and> (if c = CHR ''.'' then x \<noteq> newline else x = c) \<and> wild p t)"
  by (auto simp: wild_def tag_atom_def list_all2_Cons1)

lemma wild_Nil: "wild [] s \<longleftrightarrow> s = []"
  by (simp add: wild_def)

lemma wild_dots_le: "wild p t \<Longrightarrow> count_list t (CHR ''.'') \<le> count_list p (CHR ''.'')"
proof (induction p arbitrary: t)
  case Nil
  then show ?case by (simp add: wild_Nil)
next
  case (Cons c p)
  then obtain x t' where "t = x # t'" "if c = CHR ''.'' then x \<noteq> newline else x = c" "wild p t'"
    unfolding wild_Cons by blast
  with Cons.IH [of t'] show ?case by (auto split: if_splits)
qed

lemma wild_dots_eq:
  "wild p t \<Longrightarrow> count_list p (CHR ''.'') \<le> count_list t (CHR ''.'') \<Longrightarrow> t = p"
proof (induction p arbitrary: t)
  case Nil
  then show ?case by (simp add: wild_Nil)
next
  case (Cons c p)
  then obtain x t' where t: "t = x # t'" "if c = CHR ''.'' then x \<noteq> newline else x = c" "wild p t'"
    unfolding wild_Cons by blast
  have le: "count_list t' (CHR ''.'') \<le> count_list p (CHR ''.'')"
    using wild_dots_le [OF t(3)] .
  show ?case
  proof (cases "c = CHR ''.''")
    case True
    with Cons.prems(2) t le have "x = CHR ''.''" by (auto split: if_splits)
    moreover from this True Cons.prems(2) t have "count_list p (CHR ''.'') \<le> count_list t' (CHR ''.'')"
      by simp
    ultimately show ?thesis using Cons.IH [OF t(3)] t True by simp
  next
    case False
    with t have "x = c" by simp
    moreover from this False Cons.prems(2) t have "count_list p (CHR ''.'') \<le> count_list t' (CHR ''.'')"
      by simp
    ultimately show ?thesis using Cons.IH [OF t(3)] t by simp
  qed
qed


lemma count_dots_digits: "digits a \<Longrightarrow> count_list a (CHR ''.'') = 0"
  using digits_not_in [of a] by (simp add: count_list_0_iff)

lemma count_dots_lowers: "lowers a \<Longrightarrow> count_list a (CHR ''.'') = 0"
  using lowers_not_in [of a] by (simp add: count_list_0_iff)

lemma count_dots_production:
  "digits a \<Longrightarrow> digits b \<Longrightarrow> digits c \<Longrightarrow> count_list (a @ ''.'' @ b @ ''.'' @ c) (CHR ''.'') = 2"
  by (simp add: count_dots_digits)


lemma grammar_tag_cases:
  assumes "grammar_tag t"
  obtains (production) a b c where "digits a" "digits b" "digits c" "t = a @ ''.'' @ b @ ''.'' @ c"
  | (prerelease) a b c ch n where "digits a" "digits b" "digits c" "lowers ch" "digits n"
      "t = a @ ''.'' @ b @ ''.'' @ c @ ''-'' @ ch @ ''.'' @ n"
  using assms unfolding grammar_tag_def
  by (metis production_shape prerelease_shape)

lemma grammar_tag_simple: "grammar_tag t \<Longrightarrow> list_all simple t"
  by (erule grammar_tag_cases) (auto simp: simple_digits simple_lowers simple_def)

lemma grammar_tag_strip: "grammar_tag t \<Longrightarrow> strip t = t"
  by (simp add: grammar_tag_simple strip_simple)

lemma wild_production_eq:
  assumes p: "digits a" "digits b" "digits c" and t: "grammar_tag t"
    and w: "wild (a @ ''.'' @ b @ ''.'' @ c) t"
  shows "t = a @ ''.'' @ b @ ''.'' @ c"
proof -
  have "2 \<le> count_list t (CHR ''.'')"
    using t by (rule grammar_tag_cases) (simp_all add: count_dots_digits count_dots_lowers)
  then show ?thesis
    using wild_dots_eq [OF w] count_dots_production [OF p] by simp
qed


lemma find_tag_exact:
  assumes "wf_repo r" "list_all simple p"
    and "\<And>t. grammar_tag t \<Longrightarrow> wild p t \<Longrightarrow> t = p" and "newline \<notin> set p"
  shows "find_tag r p = Inr (p \<in> set (tag_names r))"
proof -
  have "(\<exists>t \<in> set (tag_names r). wild p (strip t)) \<longleftrightarrow> p \<in> set (tag_names r)"
  proof
    assume "\<exists>t \<in> set (tag_names r). wild p (strip t)"
    then obtain t where t: "t \<in> set (tag_names r)" "wild p (strip t)" by blast
    with assms(1) have g: "grammar_tag t" by (simp add: wf_repo_def list_all_iff)
    with t assms(3) [of t] show "p \<in> set (tag_names r)" by (simp add: grammar_tag_strip)
  next
    assume "p \<in> set (tag_names r)"
    moreover have "wild p (strip p)"
      using strip_simple [OF assms(2)] wild_self [OF assms(4)] by simp
    ultimately show "\<exists>t \<in> set (tag_names r). wild p (strip t)" by blast
  qed
  then show ?thesis unfolding find_tag_iff [OF assms(2)] by simp
qed

lemma find_tag_production:
  assumes "wf_repo r" "digits a" "digits b" "digits c"
  shows "find_tag r (a @ ''.'' @ b @ ''.'' @ c) = Inr (a @ ''.'' @ b @ ''.'' @ c \<in> set (tag_names r))"
proof (rule find_tag_exact [OF assms(1)])
  show "list_all simple (a @ ''.'' @ b @ ''.'' @ c)"
    by (rule simple_production [OF assms(2-4)])
  show "newline \<notin> set (a @ ''.'' @ b @ ''.'' @ c)"
    using assms digits_not_in by (auto simp: newline_neq_dot)
  show "t = a @ ''.'' @ b @ ''.'' @ c" if "grammar_tag t" "wild (a @ ''.'' @ b @ ''.'' @ c) t" for t
    using wild_production_eq [OF assms(2-4) that] .
qed


lemma str_nat_0: "str_nat 0 = ''0''"
  by code_simp

lemma str_nat_1: "str_nat 1 = ''1''"
  by code_simp

lemma length_str_nat: "length (str_nat n) = (if n < 10 then 1 else Suc (length (str_nat (n div 10))))"
  by (subst str_nat.simps) simp

lemma str_nat_length_mono: "m \<le> n \<Longrightarrow> length (str_nat m) \<le> length (str_nat n)"
proof (induction n arbitrary: m rule: str_nat.induct)
  case (1 n)
  show ?case
  proof (cases "n < 10")
    case True
    with 1(2) show ?thesis by (simp add: length_str_nat)
  next
    case False
    show ?thesis
    proof (cases "m < 10")
      case True
      then show ?thesis using False by (simp add: length_str_nat [of m] length_str_nat [of n])
    next
      case m: False
      have "m div 10 \<le> n div 10" using 1(2) by (rule div_le_mono)
      from 1(1) [OF False this] show ?thesis
        using False m by (simp add: length_str_nat [of m] length_str_nat [of n])
    qed
  qed
qed

lemma increment_string_number:
  assumes "pre = [] \<or> \<not> is_digit (last pre)"
  shows "increment_string (pre @ str_nat N) = pre @ str_nat (Suc N)"
proof -
  let ?num = "str_nat N"
  let ?s = "pre @ ?num"
  have num: "?num \<noteq> []" "list_all is_digit ?num"
    by (simp_all add: str_nat_nonempty str_nat_digits)
  have "rev ?s = rev ?num @ rev pre" by simp
  moreover have "is_digit (hd (rev ?num))"
    using num by (simp add: hd_rev list_all_iff)
  ultimately have d: "dropWhile (\<lambda>c. \<not> is_digit c) (rev ?s) = rev ?s"
    using num(1) by (cases "rev ?num") auto
  have "takeWhile is_digit (rev ?num @ rev pre) = rev ?num @ takeWhile is_digit (rev pre)"
    using num(2) by (intro takeWhile_append2) (simp add: list_all_iff)
  moreover have "takeWhile is_digit (rev pre) = []"
    using assms by (cases "rev pre") (auto simp: last_rev [symmetric] simp del: last_rev)
  ultimately have t: "takeWhile is_digit (rev ?s) = rev ?num" by simp
  have len: "length ?num \<le> length (str_nat (Suc N))"
    by (rule str_nat_length_mono) simp
  have "length pre + length ?num - length (str_nat (Suc N)) \<le> length pre"
    using len by arith
  then have mx: "max (length ?s - length (str_nat (Suc N))) (length ?s - length ?num) = length pre"
    by (simp add: max_def)
  show ?thesis
    unfolding increment_string_def d rev_rev_ident t Let_def int_of_str_str_nat Suc_eq_plus1 [symmetric] mx
    using num(1) by simp
qed

lemma bump_prerelease_channel:
  "str_version (bump_prerelease
      \<lparr>major = X, minor = Y, patch = Z, prerelease = Some (ch @ ''.'' @ str_nat N), build = q\<rparr>)
     = str_nat X @ ''.'' @ str_nat Y @ ''.'' @ str_nat Z @ ''-'' @ ch @ ''.'' @ str_nat (N + 1)"
proof -
  have "increment_string ((ch @ ''.'') @ str_nat N) = (ch @ ''.'') @ str_nat (Suc N)"
    by (rule increment_string_number) simp
  then show ?thesis
    using str_nat_nonempty [of "Suc N"]
    by (simp add: str_version_def bump_prerelease_def base_str_def)
qed

lemma str_version_bump_major:
  "str_version (bump_major \<lparr>major = X, minor = Y, patch = Z, prerelease = p, build = q\<rparr>)
     = str_nat (X + 1) @ ''.0.0''"
  by (simp add: str_version_def bump_major_def base_str_def str_nat_0)

lemma str_version_bump_minor:
  "str_version (bump_minor \<lparr>major = X, minor = Y, patch = Z, prerelease = p, build = q\<rparr>)
     = str_nat X @ ''.'' @ str_nat (Y + 1) @ ''.0''"
  by (simp add: str_version_def bump_minor_def base_str_def str_nat_0)

lemma get_init_rc_tag_channel:
  assumes l: "lowers ch"
  shows "get_init_rc_tag (str_nat X @ ''.'' @ str_nat Y @ ''.'' @ str_nat Z @ ''-'' @ ch @ ''.'' @ str_nat N)
        = Inr (str_nat X @ ''.'' @ str_nat Y @ ''.'' @ str_nat Z @ ''-rc.1'')"
  unfolding get_init_rc_tag_def require_fullmatch_prerelease_ok [OF l] VersionInfo_parse_def
    semver_parse_channel [OF l]
  by (simp add: base_str_simp)

lemma rc_name_shape:
  "str_nat X @ ''.'' @ str_nat Y @ ''.'' @ str_nat Z @ ''-rc.1''
     = str_nat X @ ''.'' @ str_nat Y @ ''.'' @ str_nat Z @ ''-'' @ ''rc'' @ ''.'' @ ''1''"
  by simp

lemma digits_1: "digits ''1''"
  by (simp add: digits_def is_digit_def)

lemma lowers_rc: "lowers ''rc''"
  by (simp add: lowers_def is_lower_def)

lemma find_tag_rc_name_bool:
  "\<exists>b. find_tag r (str_nat X @ ''.'' @ str_nat Y @ ''.'' @ str_nat Z @ ''-rc.1'') = Inr b"
  unfolding rc_name_shape
  using find_tag_iff [OF simple_prerelease [OF digits_str_nat digits_str_nat digits_str_nat lowers_rc digits_1]]
  by blast


lemma increment_prerelease_tag_channel:
  assumes l: "lowers ch"
  shows "increment_prerelease_tag r
           (Some (str_nat X @ ''.'' @ str_nat Y @ ''.'' @ str_nat Z @ ''-'' @ ch @ ''.'' @ str_nat N))
           channel major_bump
         = create_and_return r
            (if find_tag r (str_nat X @ ''.'' @ str_nat Y @ ''.'' @ str_nat Z @ ''-rc.1'') = Inr True
             then (if major_bump then str_nat (X + 1) @ ''.0.0''
                   else str_nat X @ ''.'' @ str_nat (Y + 1) @ ''.0'') @ ''-'' @ channel @ ''.1''
             else str_nat X @ ''.'' @ str_nat Y @ ''.'' @ str_nat Z @ ''-'' @ ch @ ''.'' @ str_nat (N + 1))
            (Inr (head r))"
proof -
  let ?t = "str_nat X @ ''.'' @ str_nat Y @ ''.'' @ str_nat Z @ ''-'' @ ch @ ''.'' @ str_nat N"
  obtain b where b: "find_tag r (str_nat X @ ''.'' @ str_nat Y @ ''.'' @ str_nat Z @ ''-rc.1'') = Inr b"
    using find_tag_rc_name_bool by blast
  have ne: "?t \<noteq> []" using str_nat_nonempty by simp
  show ?thesis
    unfolding increment_prerelease_tag_def option.case if_not_P [OF ne] Let_def
      require_fullmatch_prerelease_ok [OF l] get_init_rc_tag_channel [OF l] and_then_simps b
      VersionInfo_parse_def semver_parse_channel [OF l] option.case
      str_version_bump_major str_version_bump_minor bump_prerelease_channel
    by (cases b) simp_all
qed

lemma increment_prerelease_tag_no_parse:
  assumes m: "require_fullmatch prerelease_pattern t = Inr ()" and p: "semver_parse t = None"
  shows "increment_prerelease_tag r (Some t) channel major_bump = (Inl ValueError, r)"
proof -
  have "t \<noteq> []" using m by (auto elim: prerelease_shape)
  moreover have "get_init_rc_tag t = Inl ValueError"
    by (simp add: get_init_rc_tag_def m VersionInfo_parse_def p)
  ultimately show ?thesis
    by (simp add: increment_prerelease_tag_def m)
qed

lemma digit_val_less: "is_digit c \<Longrightarrow> digit_val c < 10"
  unfolding digit_val_def is_digit_def by arith

lemma digit_char_digit_val: "is_digit c \<Longrightarrow> digit_char (digit_val c) = c"
proof -
  assume d: "is_digit c"
  have "(of_char (digit_char (digit_val c)) :: nat) = 48 + digit_val c"
    using digit_val_less [OF d] by (rule of_char_digit_char)
  also have "\<dots> = of_char c"
    using d unfolding digit_val_def is_digit_def by arith
  finally show ?thesis by (simp only: of_char_eq_iff)
qed

lemma str_nat_snoc: "0 < k \<Longrightarrow> d < 10 \<Longrightarrow> str_nat (10 * k + d) = str_nat k @ [digit_char d]"
  by (subst str_nat.simps) simp

lemma numeric_id_canonical: "numeric_id a \<Longrightarrow> str_nat (int_of_str a) = a"
proof (induction a rule: rev_induct)
  case Nil
  then show ?case by (simp add: numeric_id_def)
next
  case (snoc c a)
  from snoc.prems have c: "is_digit c" and da: "list_all is_digit a"
    by (auto simp: numeric_id_def is_digit_def)
  show ?case
  proof (cases "a = []")
    case True
    have "int_of_str [c] = digit_val c" by (simp add: int_of_str_def)
    moreover have "str_nat (digit_val c) = [digit_char (digit_val c)]"
      using digit_val_less [OF c] by (subst str_nat.simps) simp
    ultimately show ?thesis using True c by (simp add: digit_char_digit_val)
  next
    case False
    with snoc.prems have hd: "hd a \<noteq> CHR ''0''" by (auto simp: numeric_id_def)
    with False da have na: "numeric_id a" by (simp add: numeric_id_def)
    then have ih: "str_nat (int_of_str a) = a" by (rule snoc.IH)
    have "0 < int_of_str a"
    proof (rule ccontr)
      assume "\<not> 0 < int_of_str a"
      with ih have "a = str_nat 0" by simp
      with hd show False by (simp add: str_nat_0)
    qed
    then show ?thesis
      using digit_val_less [OF c] ih c
      by (simp add: int_of_str_snoc str_nat_snoc digit_char_digit_val)
  qed
qed

lemma semver_parse_split_eq:
  assumes "s \<noteq> []" "last s \<noteq> newline" "CHR ''+'' \<notin> set s"
    and "cut (CHR ''-'') s = (core, pre)" "split_on (CHR ''.'') core = [a, b, c]"
  shows "semver_parse s =
           (if numeric_id a \<and> numeric_id b \<and> numeric_id c
               \<and> (case pre of None \<Rightarrow> True | Some p \<Rightarrow> list_all prerelease_id (split_on (CHR ''.'') p))
            then Some \<lparr>major = int_of_str a, minor = int_of_str b, patch = int_of_str c,
                       prerelease = pre, build = None\<rparr>
            else None)"
  using assms by (simp add: semver_parse_def cut_none)

lemma prerelease_id_digits: "digits n \<Longrightarrow> prerelease_id n \<Longrightarrow> numeric_id n"
  by (simp add: prerelease_id_def digits_def)

lemma prerelease_canonical:
  assumes d: "digits a" "digits b" "digits c" "lowers ch" "digits n"
    and p: "semver_parse (a @ ''.'' @ b @ ''.'' @ c @ ''-'' @ ch @ ''.'' @ n) = Some v"
  shows "a = str_nat (major v) \<and> b = str_nat (minor v) \<and> c = str_nat (patch v)
         \<and> n = str_nat (int_of_str n) \<and> prerelease v = Some (ch @ ''.'' @ n) \<and> build v = None"
proof -
  let ?core = "a @ ''.'' @ b @ ''.'' @ c"
  let ?p = "ch @ ''.'' @ n"
  let ?s = "a @ ''.'' @ b @ ''.'' @ c @ ''-'' @ ch @ ''.'' @ n"
  have n_ne: "n \<noteq> []" using d(5) by (simp add: digits_def)
  have "last n \<noteq> newline" using n_ne digits_not_in [OF d(5)] by (metis last_in_set)
  then have 1: "last ?s \<noteq> newline" using n_ne by simp
  have 2: "CHR ''+'' \<notin> set ?s" using d digits_not_in lowers_not_in by auto
  have "CHR ''-'' \<notin> set ?core" using d digits_not_in by auto
  from cut_append [OF this, of ?p] have 3: "cut (CHR ''-'') ?s = (?core, Some ?p)" by simp
  have 4: "split_on (CHR ''.'') ?core = [a, b, c]"
    using d digits_not_in by (simp add: split_on_append split_on_none)
  have 5: "split_on (CHR ''.'') (ch @ CHR ''.'' # n) = [ch, n]"
    using d digits_not_in lowers_not_in by (simp add: split_on_append split_on_none)
  have 0: "?s \<noteq> []" using n_ne by simp
  from p have "numeric_id a \<and> numeric_id b \<and> numeric_id c \<and> prerelease_id n
      \<and> v = \<lparr>major = int_of_str a, minor = int_of_str b, patch = int_of_str c,
             prerelease = Some ?p, build = None\<rparr>"
    unfolding semver_parse_split_eq [OF 0 1 2 3 4] by (auto simp: 5 split: if_splits)
  then show ?thesis
    using prerelease_id_digits [OF d(5)] by (auto simp: numeric_id_canonical)
qed

lemma production_canonical:
  assumes d: "digits a" "digits b" "digits c"
    and p: "semver_parse (a @ ''.'' @ b @ ''.'' @ c) = Some v"
  shows "a = str_nat (major v) \<and> b = str_nat (minor v) \<and> c = str_nat (patch v)
         \<and> prerelease v = None \<and> build v = None"
proof -
  let ?s = "a @ ''.'' @ b @ ''.'' @ c"
  have c_ne: "c \<noteq> []" using d(3) by (simp add: digits_def)
  have "last c \<noteq> newline" using c_ne digits_not_in [OF d(3)] by (metis last_in_set)
  then have 1: "last ?s \<noteq> newline" using c_ne by simp
  have 2: "CHR ''+'' \<notin> set ?s" using d digits_not_in by auto
  have "CHR ''-'' \<notin> set ?s" using d digits_not_in by auto
  then have 3: "cut (CHR ''-'') ?s = (?s, None)" by (rule cut_none)
  have 4: "split_on (CHR ''.'') ?s = [a, b, c]"
    using d digits_not_in by (simp add: split_on_append split_on_none)
  have 0: "?s \<noteq> []" using c_ne by simp
  from p have "numeric_id a \<and> numeric_id b \<and> numeric_id c
      \<and> v = \<lparr>major = int_of_str a, minor = int_of_str b, patch = int_of_str c,
             prerelease = None, build = None\<rparr>"
    unfolding semver_parse_split_eq [OF 0 1 2 3 4] by (auto split: if_splits)
  then show ?thesis by (auto simp: numeric_id_canonical)
qed

lemma prerelease_tag_canonical:
  assumes "require_fullmatch prerelease_pattern t = Inr ()" "semver_parse t = Some v"
  obtains ch N where "lowers ch"
    "t = str_nat (major v) @ ''.'' @ str_nat (minor v) @ ''.'' @ str_nat (patch v) @ ''-'' @ ch @ ''.'' @ str_nat N"
    "prerelease v = Some (ch @ ''.'' @ str_nat N)" "build v = None"
proof -
  from assms(1) obtain a b c ch n where d: "digits a" "digits b" "digits c" "lowers ch" "digits n"
    and t: "t = a @ ''.'' @ b @ ''.'' @ c @ ''-'' @ ch @ ''.'' @ n"
    by (rule prerelease_shape)
  from prerelease_canonical [OF d assms(2) [unfolded t]] t d(4) that [of ch "int_of_str n"]
  show ?thesis by metis
qed

lemma production_tag_canonical:
  assumes "require_fullmatch production_pattern t = Inr ()" "semver_parse t = Some v"
  shows "t = str_nat (major v) @ ''.'' @ str_nat (minor v) @ ''.'' @ str_nat (patch v)
         \<and> prerelease v = None \<and> build v = None"
proof -
  from assms(1) obtain a b c where d: "digits a" "digits b" "digits c"
    and t: "t = a @ ''.'' @ b @ ''.'' @ c"
    by (rule production_shape)
  from production_canonical [OF d assms(2) [unfolded t]] t show ?thesis by metis
qed

lemma semver_parse_core_fields:
  assumes d: "digits a" "digits b" "digits c"
    and nl: "rest = [] \<or> last rest \<noteq> newline"
    and p: "semver_parse (a @ ''.'' @ b @ ''.'' @ c @ ''-'' @ rest) = Some w"
  shows "major w = int_of_str a \<and> minor w = int_of_str b \<and> patch w = int_of_str c"
proof -
  let ?core = "a @ ''.'' @ b @ ''.'' @ c"
  let ?s = "a @ ''.'' @ b @ ''.'' @ c @ ''-'' @ rest"
  have s: "?s = ?core @ CHR ''-'' # rest" by simp
  have "last ?s = (if rest = [] then CHR ''-'' else last rest)" by simp
  with nl have 1: "last ?s \<noteq> newline" by (auto simp: newline_def)
  have "\<forall>x \<in> set ?core. x \<noteq> CHR ''+''" using d digits_not_in by auto
  then have "takeWhile (\<lambda>x. x \<noteq> CHR ''+'') (?core @ CHR ''-'' # rest)
      = ?core @ takeWhile (\<lambda>x. x \<noteq> CHR ''+'') (CHR ''-'' # rest)"
    by (intro takeWhile_append2) auto
  then have 2: "takeWhile (\<lambda>x. x \<noteq> CHR ''+'') ?s
      = ?core @ CHR ''-'' # takeWhile (\<lambda>x. x \<noteq> CHR ''+'') rest"
    by simp
  have "CHR ''-'' \<notin> set ?core" using d digits_not_in by auto
  from takeWhile_neq_append [OF this, of "takeWhile (\<lambda>x. x \<noteq> CHR ''+'') rest"]
  have 3: "takeWhile (\<lambda>x. x \<noteq> CHR ''-'') (takeWhile (\<lambda>x. x \<noteq> CHR ''+'') ?s) = ?core"
    unfolding 2 .
  have 4: "split_on (CHR ''.'') ?core = [a, b, c]"
    using d digits_not_in by (simp add: split_on_append split_on_none)
  from p show ?thesis
    unfolding semver_parse_def Let_def cut_def prod.case if_not_P [OF 1] if_False
    using 1 by (simp only: 3 4 list.case simp_thms if_False split: if_splits) auto
qed

lemma create_and_return_name: "create_and_return r name c = (Inr res, r') \<Longrightarrow> res = name"
  using create_and_return_Inr by blast

lemma version_eq:
  "(v :: version) = \<lparr>major = major v, minor = minor v, patch = patch v,
       prerelease = prerelease v, build = build v\<rparr>"
  by (cases v) simp

lemma ident_key_str_nat: "ident_key (str_nat n) = (0, n, [])"
  by (simp add: ident_key_def str_nat_nonempty str_nat_digits int_of_str_str_nat)

lemma semver_key_channel:
  assumes "lowers ch"
  shows "semver_key \<lparr>major = X, minor = Y, patch = Z, prerelease = Some (ch @ ''.'' @ str_nat N), build = q\<rparr>
     = ((X, Y, Z), 0, [ident_key ch, (0, N, [])])"
proof -
  have "split_on (CHR ''.'') (ch @ CHR ''.'' # str_nat N) = [ch, str_nat N]"
    using lowers_not_in [OF assms] digits_not_in [OF digits_str_nat [of N]]
    by (simp add: split_on_append split_on_none)
  then show ?thesis
    by (simp add: semver_key_def ident_key_str_nat)
qed

lemma semver_key_base: "fst (semver_key w) = (major w, minor w, patch w)"
  by (simp add: semver_key_def)

lemma advance_channel_increases:
  assumes l: "lowers ch"
    and res: "increment_prerelease_tag r
           (Some (str_nat X @ ''.'' @ str_nat Y @ ''.'' @ str_nat Z @ ''-'' @ ch @ ''.'' @ str_nat N))
           channel major_bump = (Inr res, r')"
    and pw: "semver_parse res = Some w"
  shows "semver_key \<lparr>major = X, minor = Y, patch = Z, prerelease = Some (ch @ ''.'' @ str_nat N),
            build = None\<rparr> < semver_key w"
proof -
  let ?v = "\<lparr>major = X, minor = Y, patch = Z, prerelease = Some (ch @ ''.'' @ str_nat N), build = None\<rparr>"
  have kv: "semver_key ?v = ((X, Y, Z), 0, [ident_key ch, (0, N, [])])"
    by (rule semver_key_channel [OF l])
  from res [unfolded increment_prerelease_tag_channel [OF l]]
  have name: "res = (if find_tag r (str_nat X @ ''.'' @ str_nat Y @ ''.'' @ str_nat Z @ ''-rc.1'') = Inr True
             then (if major_bump then str_nat (X + 1) @ ''.0.0''
                   else str_nat X @ ''.'' @ str_nat (Y + 1) @ ''.0'') @ ''-'' @ channel @ ''.1''
             else str_nat X @ ''.'' @ str_nat Y @ ''.'' @ str_nat Z @ ''-'' @ ch @ ''.'' @ str_nat (N + 1))"
    by (rule create_and_return_name)
  consider (major) "res = str_nat (X + 1) @ ''.'' @ str_nat 0 @ ''.'' @ str_nat 0 @ ''-'' @ (channel @ ''.1'')"
    | (minor) "res = str_nat X @ ''.'' @ str_nat (Y + 1) @ ''.'' @ str_nat 0 @ ''-'' @ (channel @ ''.1'')"
    | (ordinal) "res = str_nat X @ ''.'' @ str_nat Y @ ''.'' @ str_nat Z @ ''-'' @ ch @ ''.'' @ str_nat (N + 1)"
    using name by (auto simp: str_nat_0 split: if_splits)
  then show ?thesis
  proof cases
    case major
    have "major w = X + 1"
      using semver_parse_core_fields [OF digits_str_nat digits_str_nat digits_str_nat _ pw [unfolded major]]
      by (simp add: int_of_str_str_nat newline_def)
    then have "fst (semver_key ?v) < fst (semver_key w)"
      unfolding semver_key_base kv by simp
    then show ?thesis by (metis less_prod_def' prod.collapse)
  next
    case minor
    have "major w = X \<and> minor w = Y + 1"
      using semver_parse_core_fields [OF digits_str_nat digits_str_nat digits_str_nat _ pw [unfolded minor]]
      by (simp add: int_of_str_str_nat newline_def)
    then have "fst (semver_key ?v) < fst (semver_key w)"
      unfolding semver_key_base kv by simp
    then show ?thesis by (metis less_prod_def' prod.collapse)
  next
    case ordinal
    with pw have "w = \<lparr>major = X, minor = Y, patch = Z, prerelease = Some (ch @ ''.'' @ str_nat (N + 1)),
        build = None\<rparr>"
      by (simp only: semver_parse_channel [OF l] option.inject)
    then show ?thesis
      unfolding kv by (simp only: semver_key_channel [OF l]) simp
  qed
qed

lemma increment_prerelease_tag_Inr:
  assumes "increment_prerelease_tag r (Some t) channel major_bump = (Inr res, r')" "t \<noteq> []"
  shows "require_fullmatch prerelease_pattern t = Inr () \<and> (\<exists>v. semver_parse t = Some v)"
proof -
  have m: "require_fullmatch prerelease_pattern t = Inr ()"
  proof (rule ccontr)
    assume "require_fullmatch prerelease_pattern t \<noteq> Inr ()"
    then obtain e where "require_fullmatch prerelease_pattern t = Inl e"
      by (cases "require_fullmatch prerelease_pattern t") auto
    with assms show False by (simp add: increment_prerelease_tag_def)
  qed
  have "\<exists>v. semver_parse t = Some v"
  proof (rule ccontr)
    assume "\<not> (\<exists>v. semver_parse t = Some v)"
    then have "semver_parse t = None" by simp
    from increment_prerelease_tag_no_parse [OF m this] assms(1) show False by simp
  qed
  with m show ?thesis by simp
qed

lemma str_nat_Suc_0: "str_nat (Suc 0) = ''1''"
  using str_nat_1 by simp

lemma advance_channel_parses:
  assumes l: "lowers ch" and lc: "lowers channel"
    and res: "increment_prerelease_tag r
           (Some (str_nat X @ ''.'' @ str_nat Y @ ''.'' @ str_nat Z @ ''-'' @ ch @ ''.'' @ str_nat N))
           channel major_bump = (Inr res, r')"
  shows "\<exists>w. semver_parse res = Some w"
proof -
  from res [unfolded increment_prerelease_tag_channel [OF l]]
  have name: "res = (if find_tag r (str_nat X @ ''.'' @ str_nat Y @ ''.'' @ str_nat Z @ ''-rc.1'') = Inr True
             then (if major_bump then str_nat (X + 1) @ ''.0.0''
                   else str_nat X @ ''.'' @ str_nat (Y + 1) @ ''.0'') @ ''-'' @ channel @ ''.1''
             else str_nat X @ ''.'' @ str_nat Y @ ''.'' @ str_nat Z @ ''-'' @ ch @ ''.'' @ str_nat (N + 1))"
    by (rule create_and_return_name)
  consider (major) "res = str_nat (X + 1) @ ''.'' @ str_nat 0 @ ''.'' @ str_nat 0 @ ''-'' @ channel @ ''.'' @ str_nat 1"
    | (minor) "res = str_nat X @ ''.'' @ str_nat (Y + 1) @ ''.'' @ str_nat 0 @ ''-'' @ channel @ ''.'' @ str_nat 1"
    | (ordinal) "res = str_nat X @ ''.'' @ str_nat Y @ ''.'' @ str_nat Z @ ''-'' @ ch @ ''.'' @ str_nat (N + 1)"
    using name by (auto simp: str_nat_0 str_nat_Suc_0 split: if_splits)
  then show ?thesis
  proof cases
    case major
    show ?thesis unfolding major semver_parse_channel [OF lc] by blast
  next
    case minor
    show ?thesis unfolding minor semver_parse_channel [OF lc] by blast
  next
    case ordinal
    show ?thesis unfolding ordinal semver_parse_channel [OF l] by blast
  qed
qed

section \<open>\<open>find_tag_with_pattern\<close>: matching, sorting, the highest tag\<close>

lemma sorted_le_last: "sorted xs \<Longrightarrow> x \<in> set xs \<Longrightarrow> x \<le> last xs"
  by (induction xs) auto

lemma those_map_Some:
  "those (map f ts) = Some vs \<longleftrightarrow> list_all (\<lambda>t. f t \<noteq> None) ts \<and> vs = map (\<lambda>t. the (f t)) ts"
proof (induction ts arbitrary: vs)
  case Nil
  then show ?case by auto
next
  case (Cons t ts)
  then show ?case by (cases "f t") auto
qed

lemma those_map_None:
  "those (map f ts) = None \<longleftrightarrow> \<not> list_all (\<lambda>t. f t \<noteq> None) ts"
proof (induction ts)
  case Nil
  then show ?case by simp
next
  case (Cons t ts)
  then show ?case by (cases "f t") auto
qed

lemma zip_map_self: "zip (map f xs) xs = map (\<lambda>x. (f x, x)) xs"
  by (induction xs) auto

lemma sorted_reverse_parsed:
  assumes "list_all (\<lambda>t. semver_parse t \<noteq> None) ts"
  shows "sorted_reverse ts = Inr (map snd (rev (sort_key fst (rev (map (\<lambda>t. (key_of t, t)) ts)))))"
proof -
  have "those (map semver_parse ts) = Some (map (\<lambda>t. the (semver_parse t)) ts)"
    using assms by (simp add: those_map_Some)
  then show ?thesis
    by (simp add: sorted_reverse_def zip_map_self [symmetric] key_of_def comp_def)
qed

lemma sorted_reverse_unparsed:
  assumes "\<not> list_all (\<lambda>t. semver_parse t \<noteq> None) ts"
  shows "sorted_reverse ts = Inl ValueError"
proof -
  have "those (map semver_parse ts) = None"
    unfolding those_map_None by (rule assms)
  then show ?thesis by (simp add: sorted_reverse_def)
qed

lemma sorted_reverse_set:
  assumes "sorted_reverse ts = Inr ss"
  shows "set ss = set ts"
proof -
  have p: "list_all (\<lambda>t. semver_parse t \<noteq> None) ts"
  proof (rule ccontr)
    assume "\<not> list_all (\<lambda>t. semver_parse t \<noteq> None) ts"
    from sorted_reverse_unparsed [OF this] assms show False by simp
  qed
  from assms [unfolded sorted_reverse_parsed [OF p]]
  have "ss = map snd (rev (sort_key fst (rev (map (\<lambda>t. (key_of t, t)) ts))))" by simp
  then show ?thesis by (simp add: image_image)
qed

lemma sorted_reverse_head:
  assumes p: "list_all (\<lambda>t. semver_parse t \<noteq> None) ts" and ne: "ts \<noteq> []"
  shows "\<exists>t rest. sorted_reverse ts = Inr (t # rest) \<and> t \<in> set ts
           \<and> (\<forall>u \<in> set ts. key_of u \<le> key_of t)"
proof -
  define L where "L = sort_key fst (rev (map (\<lambda>t. (key_of t, t)) ts))"
  have setL: "set L = (\<lambda>t. (key_of t, t)) ` set ts" by (simp add: L_def)
  have "length L = length ts" by (simp add: L_def)
  then have neL: "L \<noteq> []" using ne by auto
  have srt: "sorted (map fst L)" by (simp add: L_def)
  have "last L \<in> set L" using neL by simp
  then obtain t where t: "t \<in> set ts" "last L = (key_of t, t)" unfolding setL by blast
  have mx: "key_of u \<le> key_of t" if "u \<in> set ts" for u
  proof -
    from that have "(key_of u, u) \<in> set L" unfolding setL by blast
    then have "key_of u \<in> set (map fst L)" by force
    from sorted_le_last [OF srt this] show ?thesis using neL t by (simp add: last_map)
  qed
  have "rev L = rev (butlast L @ [last L])"
    by (simp only: append_butlast_last_id [OF neL])
  also have "\<dots> = last L # rev (butlast L)" by simp
  finally have r: "rev L = last L # rev (butlast L)" .
  have "map snd (rev L) = t # map snd (rev (butlast L))"
    unfolding r t(2) by simp
  then have "sorted_reverse ts = Inr (t # map snd (rev (butlast L)))"
    unfolding sorted_reverse_parsed [OF p] L_def by simp
  with t mx show ?thesis by blast
qed

lemma matching_tags_bol:
  assumes "compile p = Some (Item Bol # ns)"
  shows "matching_tags p ts
           = Inr (map strip (filter (\<lambda>t. \<exists>st. st \<in> set (m_nodes (length t) (Item Bol # ns) (t, []))) ts))"
proof (induction ts)
  case Nil
  then show ?case by simp
next
  case (Cons t ts)
  show ?case
    using Cons match_from_Some_iff [of "Item Bol # ns" t]
    by (simp add: re_search_bol [OF assms] compiled_def)
qed

lemma find_tag_with_pattern_cases:
  assumes "matching_tags p (tag_names r) = Inr ts"
  shows "(ts = [] \<longrightarrow> find_tag_with_pattern r p = Inr None)
         \<and> (ts \<noteq> [] \<and> list_all (\<lambda>t. semver_parse t \<noteq> None) ts \<longrightarrow>
              (\<exists>t. find_tag_with_pattern r p = Inr (Some t) \<and> t \<in> set ts
                   \<and> (\<forall>u \<in> set ts. key_of u \<le> key_of t)))
         \<and> (\<not> list_all (\<lambda>t. semver_parse t \<noteq> None) ts \<longrightarrow>
              find_tag_with_pattern r p = Inl ValueError)"
proof (intro conjI impI)
  assume "ts = []"
  then show "find_tag_with_pattern r p = Inr None"
    by (simp add: find_tag_with_pattern_def assms sorted_reverse_def)
next
  assume "ts \<noteq> [] \<and> list_all (\<lambda>t. semver_parse t \<noteq> None) ts"
  then obtain t rest where "sorted_reverse ts = Inr (t # rest)" "t \<in> set ts"
    "\<forall>u \<in> set ts. key_of u \<le> key_of t"
    using sorted_reverse_head by blast
  then show "\<exists>t. find_tag_with_pattern r p = Inr (Some t) \<and> t \<in> set ts
                   \<and> (\<forall>u \<in> set ts. key_of u \<le> key_of t)"
    by (simp add: find_tag_with_pattern_def assms)
next
  assume "\<not> list_all (\<lambda>t. semver_parse t \<noteq> None) ts"
  then show "find_tag_with_pattern r p = Inl ValueError"
    by (simp add: find_tag_with_pattern_def assms sorted_reverse_unparsed)
qed


lemma lits_all2: "list_all2 (\<lambda>c x. atom_ok (Lit c) x) p s \<longleftrightarrow> s = p"
proof (induction p arbitrary: s)
  case Nil
  then show ?case by simp
next
  case (Cons c p)
  then show ?case by (cases s) auto
qed

lemma lex_patch_suffix:
  "lex (''-'' @ ''patch'' @ dot @ num @ ''$'')
     = Some (map (\<lambda>c. TAtom (Lit c)) ''-patch.'' @ [TOpen, TAtom Digit, TPlus, TClose, TEol])"
  by code_simp

lemma nodes_patch_suffix:
  "nodes_of (map (\<lambda>c. TAtom (Lit c)) ''-patch.'' @ [TOpen, TAtom Digit, TPlus, TClose, TEol])
     = Some (map (\<lambda>c. Item (One (Lit c))) ''-patch.'' @ [Group [[Many Digit]], Item Eol])"
  by code_simp

lemma compile_patch_pattern:
  assumes "list_all simple base"
  shows "compile (''^'' @ base @ ''-'' @ ''patch'' @ dot @ num @ ''$'')
           = Some (Item Bol # map (\<lambda>c. Item (One (tag_atom c))) base
                   @ map (\<lambda>c. Item (One (Lit c))) ''-patch.'' @ [Group [[Many Digit]], Item Eol])"
proof -
  have "compile (''^'' @ base @ (''-'' @ ''patch'' @ dot @ num @ ''$''))
      = map_option (\<lambda>ns. Item Bol # map (\<lambda>c. Item (One (tag_atom c))) base @ ns)
          (nodes_of (map (\<lambda>c. TAtom (Lit c)) ''-patch.'' @ [TOpen, TAtom Digit, TPlus, TClose, TEol]))"
    by (rule compile_simple [OF assms lex_patch_suffix]) simp
  then show ?thesis unfolding nodes_patch_suffix by simp
qed

lemma patch_hit_iff:
  "(\<exists>st. st \<in> set (m_nodes (length t)
        (Item Bol # map (\<lambda>c. Item (One (tag_atom c))) base
           @ map (\<lambda>c. Item (One (Lit c))) ''-patch.'' @ [Group [[Many Digit]], Item Eol]) (t, [])))
   \<longleftrightarrow> (\<exists>s1 n rr. t = s1 @ ''-patch.'' @ n @ rr \<and> wild base s1 \<and> digits n
          \<and> (rr = [] \<or> rr = [newline]))"
  (is "?L \<longleftrightarrow> ?R")
proof
  assume ?L
  then obtain r cs where "(r, cs) \<in> set (m_nodes (length t)
        (Item Bol # map (\<lambda>c. Item (One (tag_atom c))) base
           @ map (\<lambda>c. Item (One (Lit c))) ''-patch.'' @ [Group [[Many Digit]], Item Eol]) (t, []))"
    by (metis prod.collapse)
  then obtain s1 s2 s3 s4 n rr where f: "t = s1 @ s2" "wild base s1" "s2 = s3 @ s4"
    "n \<noteq> []" "list_all (atom_ok Digit) n" "s4 = n @ rr" "rr = [] \<or> rr = [newline]"
    and l: "list_all2 (\<lambda>c x. atom_ok (Lit c) x) ''-patch.'' s3"
    unfolding m_nodes_bol m_nodes_atoms m_nodes_many m_nodes_eol m_nodes_nil wild_def by blast
  from l have "s3 = ''-patch.''" by (simp only: lits_all2)
  with f have "t = s1 @ ''-patch.'' @ n @ rr \<and> wild base s1 \<and> digits n \<and> (rr = [] \<or> rr = [newline])"
    by (simp add: digits_def digits_alt)
  then show ?R by blast
next
  assume ?R
  then obtain s1 n rr where t: "t = s1 @ ''-patch.'' @ n @ rr" and w: "wild base s1"
    and n: "digits n" and rr: "rr = [] \<or> rr = [newline]" by blast
  have "(rr, [n]) \<in> set (m_nodes (length t)
        (Item Bol # map (\<lambda>c. Item (One (tag_atom c))) base
           @ map (\<lambda>c. Item (One (Lit c))) ''-patch.'' @ [Group [[Many Digit]], Item Eol]) (t, []))"
    unfolding m_nodes_bol m_nodes_atoms m_nodes_many m_nodes_eol m_nodes_nil
  proof (intro conjI exI)
    show "t = s1 @ (''-patch.'' @ n @ rr)" using t by simp
    show "list_all2 (\<lambda>c. atom_ok (tag_atom c)) base s1" using w by (simp add: wild_def)
    show "''-patch.'' @ n @ rr = ''-patch.'' @ (n @ rr)" by simp
    show "list_all2 (\<lambda>c. atom_ok (Lit c)) ''-patch.'' ''-patch.''" by (simp only: lits_all2)
    show "n \<noteq> []" using n by (simp add: digits_def)
    show "list_all (atom_ok Digit) n" using n by (simp add: digits_def digits_alt)
    show "n @ rr = n @ rr" by simp
    show "rr = [] \<or> rr = [newline]" by (rule rr)
    show "(rr, [] @ [n]) = (rr, [n])" by simp
    show "length t = length t" by simp
  qed
  then show ?L by blast
qed

section \<open>The patch family of a production version\<close>

lemma grammar_tag_no_newline: "grammar_tag t \<Longrightarrow> newline \<notin> set t"
  using grammar_tag_simple [of t] simple_not_newline by (auto simp: list_all_iff)

lemma grammar_tag_hyphen_dots:
  assumes "grammar_tag t" "CHR ''-'' \<in> set t"
  shows "count_list t (CHR ''.'') = 3"
  using assms(1)
proof (cases rule: grammar_tag_cases)
  case (production a b c)
  with assms(2) digits_not_in show ?thesis by auto
next
  case (prerelease a b c ch n)
  then show ?thesis by (simp add: count_dots_digits count_dots_lowers)
qed

lemma patch_hit_wf:
  assumes g: "grammar_tag t" and d: "digits a" "digits b" "digits c"
    and B: "base = a @ ''.'' @ b @ ''.'' @ c"
  shows "(\<exists>s1 n rr. t = s1 @ ''-patch.'' @ n @ rr \<and> wild base s1 \<and> digits n
            \<and> (rr = [] \<or> rr = [newline]))
         \<longleftrightarrow> (\<exists>n. digits n \<and> t = base @ ''-patch.'' @ n)"
  (is "?L \<longleftrightarrow> ?R")
proof
  assume ?L
  then obtain s1 n rr where t: "t = s1 @ ''-patch.'' @ n @ rr" and w: "wild base s1"
    and n: "digits n" and r: "rr = [] \<or> rr = [newline]" by blast
  have "rr = []"
  proof (rule ccontr)
    assume "rr \<noteq> []"
    with r t have "newline \<in> set t" by auto
    with grammar_tag_no_newline [OF g] show False by simp
  qed
  have "CHR ''-'' \<in> set t" using t by simp
  from grammar_tag_hyphen_dots [OF g this] have "count_list t (CHR ''.'') = 3" .
  moreover have "count_list t (CHR ''.'') = count_list s1 (CHR ''.'') + 1"
    using t \<open>rr = []\<close> count_dots_digits [OF n] by simp
  moreover have "count_list base (CHR ''.'') = 2"
    unfolding B by (rule count_dots_production [OF d])
  ultimately have "count_list base (CHR ''.'') \<le> count_list s1 (CHR ''.'')" by simp
  from wild_dots_eq [OF w this] have "s1 = base" .
  with t \<open>rr = []\<close> n show ?R by auto
next
  assume ?R
  then obtain n where n: "digits n" and t: "t = base @ ''-patch.'' @ n" by blast
  have "newline \<notin> set base"
    unfolding B using d digits_not_in by (auto simp: newline_neq_dot)
  then have "wild base base" by (rule wild_self)
  with n t have "t = base @ ''-patch.'' @ n @ [] \<and> wild base base \<and> digits n
      \<and> ([] = [] \<or> [] = [newline])" by simp
  then show ?L by blast
qed

lemma matching_patch_wf:
  assumes wf: "wf_repo r" and d: "digits a" "digits b" "digits c"
    and B: "base = a @ ''.'' @ b @ ''.'' @ c"
  shows "matching_tags (''^'' @ base @ ''-'' @ ''patch'' @ dot @ num @ ''$'') (tag_names r)
     = Inr (filter (\<lambda>t. \<exists>n. digits n \<and> t = base @ ''-patch.'' @ n) (tag_names r))"
proof -
  have s: "list_all simple base" unfolding B by (rule simple_production [OF d])
  have g: "grammar_tag t" if "t \<in> set (tag_names r)" for t
    using wf that by (simp add: wf_repo_def list_all_iff)
  let ?hit = "\<lambda>t. \<exists>st. st \<in> set (m_nodes (length t)
        (Item Bol # map (\<lambda>c. Item (One (tag_atom c))) base
           @ map (\<lambda>c. Item (One (Lit c))) ''-patch.'' @ [Group [[Many Digit]], Item Eol]) (t, []))"
  let ?P = "\<lambda>t. \<exists>n. digits n \<and> t = base @ ''-patch.'' @ n"
  have "filter ?hit (tag_names r) = filter ?P (tag_names r)"
  proof (rule filter_cong [OF refl])
    fix t assume "t \<in> set (tag_names r)"
    from patch_hit_wf [OF g [OF this] d B] show "?hit t = ?P t"
      unfolding patch_hit_iff .
  qed
  moreover have "map strip (filter ?P (tag_names r)) = filter ?P (tag_names r)"
    by (rule map_idI) (simp add: grammar_tag_strip g)
  ultimately show ?thesis
    unfolding matching_tags_bol [OF compile_patch_pattern [OF s]] by simp
qed

lemma lowers_patch: "lowers ''patch''"
  by (simp add: lowers_def is_lower_def)

lemma patch_tag_shape:
  "(str_nat X @ ''.'' @ str_nat Y @ ''.'' @ str_nat Z) @ ''-patch.'' @ n
     = str_nat X @ ''.'' @ str_nat Y @ ''.'' @ str_nat Z @ ''-'' @ ''patch'' @ ''.'' @ n"
  by simp

lemma key_of_patch:
  "key_of ((str_nat X @ ''.'' @ str_nat Y @ ''.'' @ str_nat Z) @ ''-patch.'' @ str_nat N)
     = ((X, Y, Z), 0, [ident_key ''patch'', (0, N, [])])"
  unfolding patch_tag_shape key_of_def semver_parse_channel [OF lowers_patch] option.sel
    semver_key_channel [OF lowers_patch] ..

lemma patch_candidate_canonical:
  assumes n: "digits n"
    and p: "semver_parse ((str_nat X @ ''.'' @ str_nat Y @ ''.'' @ str_nat Z) @ ''-patch.'' @ n) \<noteq> None"
  shows "\<exists>N. n = str_nat N"
proof -
  from p obtain v where "semver_parse (str_nat X @ ''.'' @ str_nat Y @ ''.'' @ str_nat Z
      @ ''-'' @ ''patch'' @ ''.'' @ n) = Some v"
    unfolding patch_tag_shape by blast
  from prerelease_canonical [OF digits_str_nat digits_str_nat digits_str_nat lowers_patch n this]
  show ?thesis by metis
qed

lemma create_and_return_opt_fresh:
  assumes "name \<notin> set (tag_names r)"
  shows "create_and_return_opt r name (Inr c) = (Inr (Some name), r\<lparr>tags := tags r @ [(name, c)]\<rparr>)"
  using assms by (simp add: create_and_return_opt_def create_and_return_def create_tag_def)

lemma current_patch_wf:
  assumes wf: "wf_repo r" and B: "base = str_nat X @ ''.'' @ str_nat Y @ ''.'' @ str_nat Z"
  shows "((\<exists>n. digits n \<and> base @ ''-patch.'' @ n \<in> set (tag_names r) \<and> (\<forall>N. n \<noteq> str_nat N))
            \<longrightarrow> get_current_rc_patch r base ''patch'' = Inl ValueError)
         \<and> ((\<forall>n. digits n \<and> base @ ''-patch.'' @ n \<in> set (tag_names r) \<longrightarrow> (\<exists>N. n = str_nat N))
            \<longrightarrow> ((\<forall>N. base @ ''-patch.'' @ str_nat N \<notin> set (tag_names r))
                    \<longrightarrow> get_current_rc_patch r base ''patch'' = Inr None)
                \<and> ((\<exists>N. base @ ''-patch.'' @ str_nat N \<in> set (tag_names r))
                    \<longrightarrow> (\<exists>M. base @ ''-patch.'' @ str_nat M \<in> set (tag_names r)
                           \<and> (\<forall>N. base @ ''-patch.'' @ str_nat N \<in> set (tag_names r) \<longrightarrow> N \<le> M)
                           \<and> get_current_rc_patch r base ''patch''
                               = Inr (Some (base @ ''-patch.'' @ str_nat M)))))"
proof -
  define ts where "ts = filter (\<lambda>t. \<exists>n. digits n \<and> t = base @ ''-patch.'' @ n) (tag_names r)"
  define p where "p = ''^'' @ base @ ''-'' @ ''patch'' @ dot @ num @ ''$''"
  define tg where "tg = (\<lambda>n. base @ ''-patch.'' @ n)"
  have tge: "base @ ''-patch.'' @ n = tg n" for n by (simp add: tg_def)
  have m: "matching_tags p (tag_names r) = Inr ts"
    unfolding p_def ts_def
    by (rule matching_patch_wf [OF wf digits_str_nat digits_str_nat digits_str_nat B])
  have rf: "require_fullmatch production_pattern base = Inr ()"
    unfolding B by (rule require_fullmatch_production_ok)
  have g: "get_current_rc_patch r base ''patch'' = find_tag_with_pattern r p"
    by (simp add: get_current_rc_patch_def rf p_def)
  have tsi: "t \<in> set ts \<longleftrightarrow> (\<exists>n. digits n \<and> t = tg n \<and> tg n \<in> set (tag_names r))" for t
    unfolding ts_def tg_def by auto
  have key: "key_of (tg (str_nat N)) = ((X, Y, Z), 0, [ident_key ''patch'', (0, N, [])])" for N
    unfolding tg_def B by (rule key_of_patch)
  have prs: "semver_parse (tg (str_nat N)) \<noteq> None" for N
    unfolding tg_def B patch_tag_shape semver_parse_channel [OF lowers_patch] by simp
  have can: "\<exists>N. n = str_nat N" if "digits n" "semver_parse (tg n) \<noteq> None" for n
    using patch_candidate_canonical [OF that(1) that(2) [unfolded tg_def B]] .
  note c = find_tag_with_pattern_cases [OF m]
  have bad: "get_current_rc_patch r base ''patch'' = Inl ValueError"
    if "\<exists>n. digits n \<and> tg n \<in> set (tag_names r) \<and> (\<forall>N. n \<noteq> str_nat N)"
  proof -
    from that obtain n where n: "digits n" "tg n \<in> set (tag_names r)" "\<forall>N. n \<noteq> str_nat N"
      by blast
    have "semver_parse (tg n) = None"
    proof (rule ccontr)
      assume "semver_parse (tg n) \<noteq> None"
      from can [OF n(1) this] n(3) show False by blast
    qed
    moreover have "tg n \<in> set ts" unfolding tsi using n by blast
    ultimately have "\<not> list_all (\<lambda>t. semver_parse t \<noteq> None) ts"
      unfolding list_all_iff by blast
    with c [THEN conjunct2, THEN conjunct2] show ?thesis unfolding g by (rule mp)
  qed
  have good: "((\<forall>N. tg (str_nat N) \<notin> set (tag_names r))
                    \<longrightarrow> get_current_rc_patch r base ''patch'' = Inr None)
                \<and> ((\<exists>N. tg (str_nat N) \<in> set (tag_names r))
                    \<longrightarrow> (\<exists>M. tg (str_nat M) \<in> set (tag_names r)
                           \<and> (\<forall>N. tg (str_nat N) \<in> set (tag_names r) \<longrightarrow> N \<le> M)
                           \<and> get_current_rc_patch r base ''patch'' = Inr (Some (tg (str_nat M)))))"
    if fam: "\<forall>n. digits n \<and> tg n \<in> set (tag_names r) \<longrightarrow> (\<exists>N. n = str_nat N)"
  proof (intro conjI impI)
    have mem1: "\<exists>N. t = tg (str_nat N) \<and> t \<in> set (tag_names r)" if "t \<in> set ts" for t
    proof -
      from that [unfolded tsi] obtain n where n: "digits n" "t = tg n" "tg n \<in> set (tag_names r)"
        by blast
      from fam n(1) n(3) obtain N where "n = str_nat N" by blast
      with n show ?thesis by blast
    qed
    have mem2: "tg (str_nat N) \<in> set ts" if "tg (str_nat N) \<in> set (tag_names r)" for N
      unfolding tsi using that digits_str_nat [of N] by blast
    have all: "list_all (\<lambda>t. semver_parse t \<noteq> None) ts"
      unfolding list_all_iff using mem1 prs by blast
    {
      assume no: "\<forall>N. tg (str_nat N) \<notin> set (tag_names r)"
      have "ts = []"
      proof (cases ts)
        case Nil
        then show ?thesis .
      next
        case (Cons t us)
        then have "t \<in> set ts" by simp
        from mem1 [OF this] no show ?thesis by blast
      qed
      with c [THEN conjunct1] show "get_current_rc_patch r base ''patch'' = Inr None"
        unfolding g by (rule mp)
    }
    {
      assume "\<exists>N. tg (str_nat N) \<in> set (tag_names r)"
      then obtain K where "tg (str_nat K) \<in> set (tag_names r)" ..
      from mem2 [OF this] have ne: "ts \<noteq> []" by auto
      from c [THEN conjunct2, THEN conjunct1, THEN mp, OF conjI [OF ne all]]
      obtain t where t1: "find_tag_with_pattern r p = Inr (Some t)" and t2: "t \<in> set ts"
        and t3: "\<forall>u \<in> set ts. key_of u \<le> key_of t"
        by (elim exE conjE)
      from mem1 [OF t2] obtain M where M: "t = tg (str_nat M)" and Mi: "t \<in> set (tag_names r)"
        by blast
      have "N \<le> M" if "tg (str_nat N) \<in> set (tag_names r)" for N
      proof -
        from t3 mem2 [OF that] have "key_of (tg (str_nat N)) \<le> key_of (tg (str_nat M))"
          unfolding M by (rule bspec)
        then have "N < M \<or> N = M" unfolding key by simp
        then show ?thesis by arith
      qed
      moreover have "tg (str_nat M) \<in> set (tag_names r)" using Mi unfolding M .
      moreover have "get_current_rc_patch r base ''patch'' = Inr (Some (tg (str_nat M)))"
        unfolding g t1 M ..
      ultimately show "\<exists>M. tg (str_nat M) \<in> set (tag_names r)
                           \<and> (\<forall>N. tg (str_nat N) \<in> set (tag_names r) \<longrightarrow> N \<le> M)
                           \<and> get_current_rc_patch r base ''patch'' = Inr (Some (tg (str_nat M)))"
        by blast
    }
  qed
  show ?thesis
    unfolding tge using bad good by blast
qed


lemma increment_rc_patch_invalid_base:
  assumes rf: "require_fullmatch production_pattern base = Inr ()"
    and i: "base \<in> set (tag_names r)" and p: "semver_parse base = None"
  shows "increment_rc_patch r base ''patch'' = (Inl ValueError, r)"
proof -
  have ft: "find_tag r base = Inr True"
    by (rule find_tag_self [OF simple_production_tag [OF rf] i])
  have vp: "VersionInfo_parse base = Inl ValueError" by (simp add: VersionInfo_parse_def p)
  have pc: "''patch'' \<noteq> ''rc''" by simp
  show ?thesis
    using pc by (simp add: increment_rc_patch_def rf ft py_and_def py_not_def vp)
qed

lemma increment_rc_patch_no_base:
  assumes wf: "wf_repo r" and rf: "require_fullmatch production_pattern base = Inr ()"
    and i: "base \<notin> set (tag_names r)"
  shows "increment_rc_patch r base ''patch'' =
           (Inl (InvalidTagCreation
              ''Production version not available. Cannot create Patch version!''), r)"
proof -
  from rf obtain a b c where d: "digits a" "digits b" "digits c" and e: "base = a @ ''.'' @ b @ ''.'' @ c"
    by (rule production_shape)
  have ft: "find_tag r base = Inr (base \<in> set (tag_names r))"
    unfolding e by (rule find_tag_production [OF wf d])
  have pc: "''patch'' \<noteq> ''rc''" by simp
  show ?thesis
    using i pc by (simp add: increment_rc_patch_def rf ft py_and_def py_not_def)
qed

lemma increment_rc_patch_patch_wf:
  assumes wf: "wf_repo r" and B: "base = str_nat X @ ''.'' @ str_nat Y @ ''.'' @ str_nat Z"
    and S: "succ = str_nat X @ ''.'' @ str_nat Y @ ''.'' @ str_nat (Z + 1)"
    and i: "base \<in> set (tag_names r)"
  shows "(succ \<in> set (tag_names r) \<longrightarrow>
            increment_rc_patch r base ''patch'' =
              (Inl (InvalidTagCreation
                 ''Cannot increment Patch pre-release version. Patch found in Production.''), r))
       \<and> (succ \<notin> set (tag_names r)
            \<and> (\<exists>n. digits n \<and> base @ ''-patch.'' @ n \<in> set (tag_names r) \<and> (\<forall>N. n \<noteq> str_nat N)) \<longrightarrow>
            increment_rc_patch r base ''patch'' = (Inl ValueError, r))
       \<and> (succ \<notin> set (tag_names r)
            \<and> (\<forall>n. digits n \<and> base @ ''-patch.'' @ n \<in> set (tag_names r) \<longrightarrow> (\<exists>N. n = str_nat N)) \<longrightarrow>
            ((\<forall>N. base @ ''-patch.'' @ str_nat N \<notin> set (tag_names r)) \<longrightarrow>
               increment_rc_patch r base ''patch'' = (Inr None, r))
            \<and> ((\<exists>N. base @ ''-patch.'' @ str_nat N \<in> set (tag_names r)) \<longrightarrow>
               (\<exists>M. base @ ''-patch.'' @ str_nat M \<in> set (tag_names r)
                  \<and> (\<forall>N. base @ ''-patch.'' @ str_nat N \<in> set (tag_names r) \<longrightarrow> N \<le> M)
                  \<and> increment_rc_patch r base ''patch'' =
                      (Inr (Some (base @ ''-patch.'' @ str_nat (M + 1))),
                       r\<lparr>tags := tags r @ [(base @ ''-patch.'' @ str_nat (M + 1), head r)]\<rparr>))))"
proof -
  define tg where "tg = (\<lambda>n. base @ ''-patch.'' @ n)"
  have rf: "require_fullmatch production_pattern base = Inr ()"
    unfolding B by (rule require_fullmatch_production_ok)
  have ft: "find_tag r base = Inr True"
    by (rule find_tag_self [OF simple_production_tag [OF rf] i])
  have vp: "VersionInfo_parse base
      = Inr \<lparr>major = X, minor = Y, patch = Z, prerelease = None, build = None\<rparr>"
    unfolding B VersionInfo_parse_def semver_parse_base by simp
  have bp: "str_version (bump_patch
      \<lparr>major = X, minor = Y, patch = Z, prerelease = None, build = None\<rparr>) = succ"
    unfolding S by (rule str_version_bump_patch)
  have ft2: "find_tag r succ = Inr (succ \<in> set (tag_names r))"
    unfolding S by (rule find_tag_production [OF wf digits_str_nat digits_str_nat digits_str_nat])
  have pc: "''patch'' \<noteq> ''rc''" by simp
  have tg: "base @ ''-patch.'' @ n = tg n" for n by (simp add: tg_def)
  note cur = current_patch_wf [OF wf B, unfolded tg]
  have c2: "increment_rc_patch r base ''patch'' =
      (Inl (InvalidTagCreation
         ''Cannot increment Patch pre-release version. Patch found in Production.''), r)"
    if "succ \<in> set (tag_names r)"
    using that pc by (simp add: increment_rc_patch_def rf ft py_and_def py_not_def vp bp ft2)
  have step: "increment_rc_patch r base ''patch'' =
      (case get_current_rc_patch r base ''patch'' of
         Inl e \<Rightarrow> (Inl e, r)
       | Inr None \<Rightarrow> (Inr None, r)
       | Inr (Some c) \<Rightarrow>
           if c = [] then (Inr None, r)
           else (case VersionInfo_parse c of
                   Inl e \<Rightarrow> (Inl e, r)
                 | Inr w \<Rightarrow> create_and_return_opt r (str_version (bump_prerelease w)) (Inr (head r))))"
    if "succ \<notin> set (tag_names r)"
    using that pc
    by (simp add: increment_rc_patch_def rf ft py_and_def py_not_def vp bp ft2
        split: sum.splits option.splits)
  have cv: "increment_rc_patch r base ''patch'' = (Inl ValueError, r)"
    if a: "succ \<notin> set (tag_names r)"
      and n: "\<exists>n. digits n \<and> tg n \<in> set (tag_names r) \<and> (\<forall>N. n \<noteq> str_nat N)"
  proof -
    from cur [THEN conjunct1] n have "get_current_rc_patch r base ''patch'' = Inl ValueError"
      by (rule mp)
    then show ?thesis unfolding step [OF a] by simp
  qed
  have c3: "increment_rc_patch r base ''patch'' = (Inr None, r)"
    if a: "succ \<notin> set (tag_names r)"
      and fam: "\<forall>n. digits n \<and> tg n \<in> set (tag_names r) \<longrightarrow> (\<exists>N. n = str_nat N)"
      and n: "\<forall>N. tg (str_nat N) \<notin> set (tag_names r)"
  proof -
    from cur [THEN conjunct2, THEN mp, OF fam, THEN conjunct1] n
    have "get_current_rc_patch r base ''patch'' = Inr None"
      by (rule mp)
    then show ?thesis unfolding step [OF a] by simp
  qed
  have c4: "\<exists>M. tg (str_nat M) \<in> set (tag_names r)
               \<and> (\<forall>N. tg (str_nat N) \<in> set (tag_names r) \<longrightarrow> N \<le> M)
               \<and> increment_rc_patch r base ''patch'' =
                   (Inr (Some (tg (str_nat (M + 1)))),
                    r\<lparr>tags := tags r @ [(tg (str_nat (M + 1)), head r)]\<rparr>)"
    if a: "succ \<notin> set (tag_names r)"
      and fam: "\<forall>n. digits n \<and> tg n \<in> set (tag_names r) \<longrightarrow> (\<exists>N. n = str_nat N)"
      and n: "\<exists>N. tg (str_nat N) \<in> set (tag_names r)"
  proof -
    from cur [THEN conjunct2, THEN mp, OF fam, THEN conjunct2, THEN mp, OF n]
    obtain M where M1: "tg (str_nat M) \<in> set (tag_names r)"
      and M2: "\<forall>N. tg (str_nat N) \<in> set (tag_names r) \<longrightarrow> N \<le> M"
      and M3: "get_current_rc_patch r base ''patch'' = Inr (Some (tg (str_nat M)))"
      by (elim exE conjE)
    have sh: "tg (str_nat N)
        = str_nat X @ ''.'' @ str_nat Y @ ''.'' @ str_nat Z @ ''-'' @ ''patch'' @ ''.'' @ str_nat N"
      for N unfolding tg_def B by simp
    have ne: "tg (str_nat M) \<noteq> []" unfolding tg_def by simp
    have p: "VersionInfo_parse (tg (str_nat M)) = Inr \<lparr>major = X, minor = Y, patch = Z,
          prerelease = Some (''patch'' @ ''.'' @ str_nat M), build = None\<rparr>"
      unfolding sh VersionInfo_parse_def semver_parse_channel [OF lowers_patch] by simp
    have b: "str_version (bump_prerelease \<lparr>major = X, minor = Y, patch = Z,
          prerelease = Some (''patch'' @ ''.'' @ str_nat M), build = None\<rparr>) = tg (str_nat (M + 1))"
      unfolding sh by (rule bump_prerelease_channel)
    have fresh: "tg (str_nat (M + 1)) \<notin> set (tag_names r)"
    proof
      assume "tg (str_nat (M + 1)) \<in> set (tag_names r)"
      with M2 have "M + 1 \<le> M" by blast
      then show False by simp
    qed
    have "increment_rc_patch r base ''patch'' =
        create_and_return_opt r (tg (str_nat (M + 1))) (Inr (head r))"
      unfolding step [OF a] M3 using ne by (simp only: p b sum.case option.case if_False)
    also have "\<dots> = (Inr (Some (tg (str_nat (M + 1)))),
        r\<lparr>tags := tags r @ [(tg (str_nat (M + 1)), head r)]\<rparr>)"
      by (rule create_and_return_opt_fresh [OF fresh])
    finally show ?thesis using M1 M2 by blast
  qed
  show ?thesis
    unfolding tg using c2 cv c3 c4 by blast
qed

lemma increment_rc_patch_not_illegal:
  assumes wf: "wf_repo r" and B: "base = str_nat X @ ''.'' @ str_nat Y @ ''.'' @ str_nat Z"
    and i: "base \<in> set (tag_names r)"
    and s: "str_nat X @ ''.'' @ str_nat Y @ ''.'' @ str_nat (Z + 1) \<notin> set (tag_names r)"
  shows "fst (increment_rc_patch r base ''patch'') \<noteq> Inl (InvalidTagCreation msg)"
proof -
  define res where "res = increment_rc_patch r base ''patch''"
  define fam where "fam = (\<forall>n. digits n \<and> base @ ''-patch.'' @ n \<in> set (tag_names r)
      \<longrightarrow> (\<exists>N. n = str_nat N))"
  define some where "some = (\<exists>N. base @ ''-patch.'' @ str_nat N \<in> set (tag_names r))"
  note c = increment_rc_patch_patch_wf [OF wf B refl i, folded res_def]
  have bad: "res = (Inl ValueError, r)" if "\<not> fam"
  proof -
    from that have "\<exists>n. digits n \<and> base @ ''-patch.'' @ n \<in> set (tag_names r) \<and> (\<forall>N. n \<noteq> str_nat N)"
      unfolding fam_def by blast
    with s c [THEN conjunct2, THEN conjunct1] show ?thesis by blast
  qed
  have good: "(\<not> some \<longrightarrow> res = (Inr None, r)) \<and> (some \<longrightarrow> (\<exists>x r'. res = (Inr x, r')))" if fam
  proof -
    from that have f: "\<forall>n. digits n \<and> base @ ''-patch.'' @ n \<in> set (tag_names r)
      \<longrightarrow> (\<exists>N. n = str_nat N)" unfolding fam_def .
    note g = c [THEN conjunct2, THEN conjunct2, THEN mp, OF conjI [OF s f]]
    from g [THEN conjunct1] have 1: "\<not> some \<longrightarrow> res = (Inr None, r)" unfolding some_def by simp
    from g [THEN conjunct2] have 2: "some \<longrightarrow> (\<exists>x r'. res = (Inr x, r'))" unfolding some_def by blast
    from 1 2 show ?thesis ..
  qed
  have "fst res \<noteq> Inl (InvalidTagCreation msg)"
  proof (cases fam)
    case False
    from bad [OF this] show ?thesis by simp
  next
    case True
    from good [OF this] show ?thesis by (cases some) auto
  qed
  then show ?thesis unfolding res_def .
qed

section \<open>The prerelease grammar of a channel\<close>

lemma lex_channel_prefix:
  "lex (''^'' @ num @ dot @ num @ dot @ num @ ''-'' @ rest)
     = map_option ((@) [TBol, TOpen, TAtom Digit, TPlus, TClose, TAtom (Lit (CHR ''.'')),
                        TOpen, TAtom Digit, TPlus, TClose, TAtom (Lit (CHR ''.'')),
                        TOpen, TAtom Digit, TPlus, TClose, TAtom (Lit (CHR ''-''))]) (lex rest)"
  by (cases "lex rest") (simp_all add: num_def dot_def backslash_def escapable_def)

lemma lex_channel_suffix:
  "lex (dot @ num @ ''$'') = Some [TAtom (Lit (CHR ''.'')), TOpen, TAtom Digit, TPlus, TClose, TEol]"
  by code_simp

lemma nodes_channel_suffix:
  "nodes_of [TAtom (Lit (CHR ''.'')), TOpen, TAtom Digit, TPlus, TClose, TEol]
     = Some [Item (One (Lit (CHR ''.''))), Group [[Many Digit]], Item Eol]"
  by code_simp

lemma tag_atom_lowers: "lowers ch \<Longrightarrow> map (\<lambda>c. TAtom (tag_atom c)) ch = map TAtom (map Lit ch)"
  using lowers_not_in [of ch] by (auto simp: tag_atom_def)

lemma nodes_channel_prefix:
  assumes "ts \<noteq> []" "hd ts \<noteq> TPlus"
  shows "nodes_of ([TBol, TOpen, TAtom Digit, TPlus, TClose, TAtom (Lit (CHR ''.'')),
                    TOpen, TAtom Digit, TPlus, TClose, TAtom (Lit (CHR ''.'')),
                    TOpen, TAtom Digit, TPlus, TClose, TAtom (Lit (CHR ''-''))] @ ts)
     = map_option ((@) [Item Bol, Group [[Many Digit]], Item (One (Lit (CHR ''.''))),
                        Group [[Many Digit]], Item (One (Lit (CHR ''.''))), Group [[Many Digit]],
                        Item (One (Lit (CHR ''-'')))]) (nodes_of ts)"
proof -
  have "nodes_of (TAtom (Lit (CHR ''-'')) # ts)
      = map_option ((#) (Item (One (Lit (CHR ''-''))))) (nodes_of ts)"
    by (rule nodes_of_atom) (simp add: assms)
  then show ?thesis by (cases "nodes_of ts") simp_all
qed

lemma compile_channel:
  assumes l: "lowers ch"
  shows "compile (''^'' @ num @ dot @ num @ dot @ num @ ''-'' @ ch @ dot @ num @ ''$'')
     = Some (Item Bol # [Group [[Many Digit]], Item (One (Lit (CHR ''.''))),
                        Group [[Many Digit]], Item (One (Lit (CHR ''.''))), Group [[Many Digit]],
                        Item (One (Lit (CHR ''-'')))]
             @ map (\<lambda>c. Item (One (Lit c))) ch
             @ [Item (One (Lit (CHR ''.''))), Group [[Many Digit]], Item Eol])"
proof -
  let ?T3 = "[TAtom (Lit (CHR ''.'')), TOpen, TAtom Digit, TPlus, TClose, TEol]"
  have ne: "ch \<noteq> []" using l by (simp add: lowers_def)
  have 1: "lex (ch @ dot @ num @ ''$'') = Some (map TAtom (map Lit ch) @ ?T3)"
    using lex_simple [OF simple_lowers [OF l], of "dot @ num @ ''$''"]
    unfolding lex_channel_suffix tag_atom_lowers [OF l] by simp
  have 2: "nodes_of (map TAtom (map Lit ch) @ ?T3)
      = Some (map (\<lambda>a. Item (One a)) (map Lit ch)
              @ [Item (One (Lit (CHR ''.''))), Group [[Many Digit]], Item Eol])"
    using nodes_of_atoms [of ?T3 "map Lit ch"] unfolding nodes_channel_suffix by simp
  have 3: "map TAtom (map Lit ch) @ ?T3 \<noteq> []" "hd (map TAtom (map Lit ch) @ ?T3) \<noteq> TPlus"
    using ne by (cases ch; simp)+
  show ?thesis
    unfolding compile_def lex_channel_prefix 1
    using nodes_channel_prefix [OF 3] unfolding 2
    by (simp add: comp_def)
qed

lemma channel_nodes_iff:
  "(r, caps) \<in> set (m_nodes (length t)
       (Item Bol # [Group [[Many Digit]], Item (One (Lit (CHR ''.''))),
                        Group [[Many Digit]], Item (One (Lit (CHR ''.''))), Group [[Many Digit]],
                        Item (One (Lit (CHR ''-'')))]
             @ map (\<lambda>c. Item (One (Lit c))) ch
             @ [Item (One (Lit (CHR ''.''))), Group [[Many Digit]], Item Eol]) (t, []))
   \<longleftrightarrow> (\<exists>a b c n. digits a \<and> digits b \<and> digits c \<and> digits n
           \<and> t = a @ ''.'' @ b @ ''.'' @ c @ ''-'' @ ch @ ''.'' @ n @ r
           \<and> caps = [a, b, c, n] \<and> (r = [] \<or> r = [newline]))"
  unfolding append_Cons append_Nil m_steps m_nodes_atoms lits_all2 digits_alt digits_def
  by auto

lemma is_space_newline: "is_space newline"
  by (simp add: is_space_def newline_def)

lemma strip_newline:
  assumes "list_all (\<lambda>c. \<not> is_space c) s"
  shows "strip (s @ [newline]) = s"
proof (cases s)
  case Nil
  then show ?thesis by (simp add: strip_def is_space_newline)
next
  case (Cons x xs)
  with assms have 1: "dropWhile is_space (s @ [newline]) = s @ [newline]" by simp
  have "list_all (\<lambda>c. \<not> is_space c) (rev s)" using assms by (simp add: list_all_iff)
  then have 2: "dropWhile is_space (rev s) = rev s" by (cases "rev s") auto
  show ?thesis unfolding strip_def 1 by (simp add: is_space_newline 2)
qed

text \<open>A name \<^verbatim>\<open>a.b.c-ch.n\<close> of digit strings, and the same name followed by one newline.\<close>

lemma channel_hit_strip:
  assumes l: "lowers ch" and d: "digits a" "digits b" "digits c" "digits n"
    and rr: "rr = [] \<or> rr = [newline]"
  shows "strip (a @ ''.'' @ b @ ''.'' @ c @ ''-'' @ ch @ ''.'' @ n @ rr)
           = a @ ''.'' @ b @ ''.'' @ c @ ''-'' @ ch @ ''.'' @ n"
proof -
  define s where "s = a @ ''.'' @ b @ ''.'' @ c @ ''-'' @ ch @ ''.'' @ n"
  have "list_all simple s" unfolding s_def by (rule simple_prerelease [OF d(1-3) l d(4)])
  then have ns: "list_all (\<lambda>c. \<not> is_space c) s" by (auto simp: list_all_iff not_space_simple)
  have e: "a @ ''.'' @ b @ ''.'' @ c @ ''-'' @ ch @ ''.'' @ n @ rr = s @ rr" unfolding s_def by simp
  have "strip (s @ rr) = s"
  proof (cases "rr = []")
    case True
    then show ?thesis using strip_id [OF ns] by simp
  next
    case False
    with rr have "rr = [newline]" by simp
    then show ?thesis using strip_newline [OF ns] by simp
  qed
  then show ?thesis unfolding e s_def .
qed

lemma matching_channel:
  assumes l: "lowers ch"
  shows "\<exists>ts. matching_tags (''^'' @ num @ dot @ num @ dot @ num @ ''-'' @ ch @ dot @ num @ ''$'') names
            = Inr ts
          \<and> set ts = {a @ ''.'' @ b @ ''.'' @ c @ ''-'' @ ch @ ''.'' @ n | a b c n.
                       digits a \<and> digits b \<and> digits c \<and> digits n
                       \<and> (a @ ''.'' @ b @ ''.'' @ c @ ''-'' @ ch @ ''.'' @ n \<in> set names
                          \<or> a @ ''.'' @ b @ ''.'' @ c @ ''-'' @ ch @ ''.'' @ n @ [newline] \<in> set names)}"
proof -
  define ns where "ns = [Group [[Many Digit]], Item (One (Lit (CHR ''.''))),
                        Group [[Many Digit]], Item (One (Lit (CHR ''.''))), Group [[Many Digit]],
                        Item (One (Lit (CHR ''-'')))]
             @ map (\<lambda>c. Item (One (Lit c))) ch
             @ [Item (One (Lit (CHR ''.''))), Group [[Many Digit]], Item Eol]"
  define hit where "hit = (\<lambda>t. \<exists>st. st \<in> set (m_nodes (length t) (Item Bol # ns) (t, [])))"
  define sh where "sh = (\<lambda>a b c n. a @ ''.'' @ b @ ''.'' @ c @ ''-'' @ ch @ ''.'' @ n)"
  have c: "compile (''^'' @ num @ dot @ num @ dot @ num @ ''-'' @ ch @ dot @ num @ ''$'')
      = Some (Item Bol # ns)"
    unfolding ns_def by (rule compile_channel [OF l])
  have h: "hit t \<longleftrightarrow> (\<exists>a b c n rr. digits a \<and> digits b \<and> digits c \<and> digits n
           \<and> t = sh a b c n @ rr \<and> (rr = [] \<or> rr = [newline]))" for t
  proof -
    have "hit t \<longleftrightarrow> (\<exists>rr caps. (rr, caps) \<in> set (m_nodes (length t) (Item Bol # ns) (t, [])))"
      unfolding hit_def by auto
    also have "\<dots> \<longleftrightarrow> (\<exists>rr caps a b c n. digits a \<and> digits b \<and> digits c \<and> digits n
           \<and> t = a @ ''.'' @ b @ ''.'' @ c @ ''-'' @ ch @ ''.'' @ n @ rr
           \<and> caps = [a, b, c, n] \<and> (rr = [] \<or> rr = [newline]))"
      unfolding ns_def channel_nodes_iff ..
    also have "\<dots> \<longleftrightarrow> (\<exists>a b c n rr. digits a \<and> digits b \<and> digits c \<and> digits n
           \<and> t = sh a b c n @ rr \<and> (rr = [] \<or> rr = [newline]))"
      unfolding sh_def by (simp only: append_assoc) blast
    finally show ?thesis .
  qed
  have st: "strip (sh a b c n @ rr) = sh a b c n"
    if "digits a" "digits b" "digits c" "digits n" "rr = [] \<or> rr = [newline]" for a b c n rr
    using channel_hit_strip [OF l that] unfolding sh_def by simp
  have m: "matching_tags (''^'' @ num @ dot @ num @ dot @ num @ ''-'' @ ch @ dot @ num @ ''$'') names
      = Inr (map strip (filter hit names))"
    unfolding hit_def by (rule matching_tags_bol [OF c])
  have "set (map strip (filter hit names)) = {sh a b c n | a b c n.
                       digits a \<and> digits b \<and> digits c \<and> digits n
                       \<and> (sh a b c n \<in> set names \<or> sh a b c n @ [newline] \<in> set names)}"
    (is "?L = ?R")
  proof (intro equalityI subsetI)
    fix x assume "x \<in> ?L"
    then obtain t where t: "t \<in> set names" "hit t" "x = strip t" by auto
    from t(2) [unfolded h] obtain a b c n rr where d: "digits a" "digits b" "digits c" "digits n"
      and tt: "t = sh a b c n @ rr" and rr: "rr = [] \<or> rr = [newline]" by blast
    have x: "x = sh a b c n" unfolding t(3) tt by (rule st [OF d rr])
    from rr t(1) tt have "sh a b c n \<in> set names \<or> sh a b c n @ [newline] \<in> set names" by auto
    with d x show "x \<in> ?R" by blast
  next
    fix x assume "x \<in> ?R"
    then obtain a b c n where d: "digits a" "digits b" "digits c" "digits n"
      and x: "x = sh a b c n"
      and i: "sh a b c n \<in> set names \<or> sh a b c n @ [newline] \<in> set names" by blast
    have "\<exists>rr. (rr = [] \<or> rr = [newline]) \<and> sh a b c n @ rr \<in> set names"
    proof (cases "sh a b c n \<in> set names")
      case True
      then have "sh a b c n @ [] \<in> set names" by simp
      then show ?thesis by blast
    next
      case False
      with i show ?thesis by blast
    qed
    then obtain rr where rr: "rr = [] \<or> rr = [newline]" and t: "sh a b c n @ rr \<in> set names"
      by blast
    have "hit (sh a b c n @ rr)" unfolding h using d rr by blast
    moreover have "strip (sh a b c n @ rr) = x" unfolding x by (rule st [OF d rr])
    ultimately show "x \<in> ?L" using t by force
  qed
  then show ?thesis using m unfolding sh_def by (simp only: append_assoc) blast
qed




section \<open>From the current tag of a channel to a release candidate and to production\<close>

lemma create_and_return_opt_Some:
  assumes "create_and_return_opt r name cc = (Inr (Some x), r')"
  shows "\<exists>c. cc = Inr c \<and> name \<notin> set (tag_names r) \<and> x = name
            \<and> r' = r\<lparr>tags := tags r @ [(name, c)]\<rparr>"
  using assms
  by (cases cc)
     (auto simp: create_and_return_opt_def create_and_return_def create_tag_def
           split: if_splits)

lemma commit_new_tag:
  assumes "name \<notin> set (tag_names r)"
  shows "commit (r\<lparr>tags := tags r @ [(name, c)]\<rparr>) name = Inr c"
proof -
  from assms have "map_of (tags r) name = None"
    by (simp add: tag_names_def map_of_eq_None_iff)
  then show ?thesis by (simp add: commit_def map_add_def)
qed

lemma init_new_rc_Some:
  assumes "init_new_rc r ch = (Inr (Some rc), r')"
  shows "\<exists>d v c. get_current_tag r ch False = Inr (Some d) \<and> semver_parse d = Some v
            \<and> commit r d = Inr c \<and> rc = base_str v @ ''-rc.1''
            \<and> rc \<notin> set (tag_names r)
            \<and> r' = r\<lparr>tags := tags r @ [(rc, c)]\<rparr>"
proof -
  from assms obtain d where d: "get_current_tag r ch False = Inr (Some d)"
    by (auto simp: init_new_rc_def split: sum.splits option.splits)
  with assms have ne: "d \<noteq> []"
    by (auto simp: init_new_rc_def split: if_splits)
  with assms d obtain v where v: "VersionInfo_parse d = Inr v"
    by (cases "VersionInfo_parse d") (simp_all add: init_new_rc_def)
  then have p: "semver_parse d = Some v"
    by (simp add: VersionInfo_parse_def split: option.splits)
  from assms d ne v
  have "create_and_return_opt r (base_str v @ ''-rc.1'') (commit r d) = (Inr (Some rc), r')"
    by (simp add: init_new_rc_def)
  from create_and_return_opt_Some [OF this] d p show ?thesis by blast
qed

lemma key_of_channel:
  assumes "lowers ch"
  shows "key_of (str_nat X @ ''.'' @ str_nat Y @ ''.'' @ str_nat Z @ ''-'' @ ch @ ''.'' @ str_nat N)
     = ((X, Y, Z), 0, [ident_key ch, (0, N, [])])"
  unfolding key_of_def semver_parse_channel [OF assms] option.sel semver_key_channel [OF assms] ..

lemma channel_key_le:
  "((X', Y', Z'), 0 :: nat, [k, (0 :: nat, N', [] :: string)]) \<le> ((X, Y, Z), 0, [k, (0, N, [])])
     \<longleftrightarrow> (X' :: nat, Y' :: nat, Z' :: nat, N' :: nat) \<le> (X, Y, Z, N)"
  by auto

lemma channel_tuple_eq:
  "(X' :: nat, Y' :: nat, Z' :: nat, N' :: nat) \<le> (X, Y, Z, N) \<Longrightarrow> (X, Y, Z, N) \<le> (X', Y', Z', N')
     \<Longrightarrow> X' = X \<and> Y' = Y \<and> Z' = Z \<and> N' = N"
  by auto

lemma channel_canonical:
  assumes l: "lowers ch" and d: "digits a" "digits b" "digits c" "digits n"
    and p: "semver_parse (a @ ''.'' @ b @ ''.'' @ c @ ''-'' @ ch @ ''.'' @ n) \<noteq> None"
  shows "\<exists>X Y Z N. a @ ''.'' @ b @ ''.'' @ c @ ''-'' @ ch @ ''.'' @ n
           = str_nat X @ ''.'' @ str_nat Y @ ''.'' @ str_nat Z @ ''-'' @ ch @ ''.'' @ str_nat N"
proof -
  from p obtain v where v: "semver_parse (a @ ''.'' @ b @ ''.'' @ c @ ''-'' @ ch @ ''.'' @ n) = Some v"
    by blast
  note k = prerelease_canonical [OF d(1-3) l d(4) v]
  have "a @ ''.'' @ b @ ''.'' @ c @ ''-'' @ ch @ ''.'' @ n
      = str_nat (major v) @ ''.'' @ str_nat (minor v) @ ''.'' @ str_nat (patch v)
        @ ''-'' @ ch @ ''.'' @ str_nat (int_of_str n)"
    using k by metis
  then show ?thesis by blast
qed


lemma get_current_tag_channel:
  assumes l: "lowers ch"
  obtains ts where
    "matching_tags (''^'' @ num @ dot @ num @ dot @ num @ ''-'' @ ch @ dot @ num @ ''$'') (tag_names r)
       = Inr ts"
    "set ts = {a @ ''.'' @ b @ ''.'' @ c @ ''-'' @ ch @ ''.'' @ n | a b c n.
                 digits a \<and> digits b \<and> digits c \<and> digits n
                 \<and> (a @ ''.'' @ b @ ''.'' @ c @ ''-'' @ ch @ ''.'' @ n \<in> set (tag_names r)
                    \<or> a @ ''.'' @ b @ ''.'' @ c @ ''-'' @ ch @ ''.'' @ n @ [newline] \<in> set (tag_names r))}"
    "get_current_tag r ch False
       = find_tag_with_pattern r (''^'' @ num @ dot @ num @ dot @ num @ ''-'' @ ch @ dot @ num @ ''$'')"
proof -
  from matching_channel [OF l, of "tag_names r"] obtain ts where
    1: "matching_tags (''^'' @ num @ dot @ num @ dot @ num @ ''-'' @ ch @ dot @ num @ ''$'') (tag_names r)
       = Inr ts"
    and 2: "set ts = {a @ ''.'' @ b @ ''.'' @ c @ ''-'' @ ch @ ''.'' @ n | a b c n.
                 digits a \<and> digits b \<and> digits c \<and> digits n
                 \<and> (a @ ''.'' @ b @ ''.'' @ c @ ''-'' @ ch @ ''.'' @ n \<in> set (tag_names r)
                    \<or> a @ ''.'' @ b @ ''.'' @ c @ ''-'' @ ch @ ''.'' @ n @ [newline] \<in> set (tag_names r))}"
    by (elim exE conjE)
  have 3: "get_current_tag r ch False
       = find_tag_with_pattern r (''^'' @ num @ dot @ num @ dot @ num @ ''-'' @ ch @ dot @ num @ ''$'')"
    by (simp add: get_current_tag_def)
  from 1 2 3 show ?thesis by (rule that)
qed

lemma find_tag_with_pattern_Some:
  assumes m: "matching_tags p (tag_names r) = Inr ts"
    and f: "find_tag_with_pattern r p = Inr (Some d)"
  shows "d \<in> set ts \<and> list_all (\<lambda>t. semver_parse t \<noteq> None) ts
         \<and> (\<forall>u \<in> set ts. key_of u \<le> key_of d)"
proof -
  note c = find_tag_with_pattern_cases [OF m]
  have ne: "ts \<noteq> []"
  proof
    assume "ts = []"
    with c [THEN conjunct1] have "find_tag_with_pattern r p = Inr None" by (rule mp)
    with f show False by simp
  qed
  have all: "list_all (\<lambda>t. semver_parse t \<noteq> None) ts"
  proof (rule ccontr)
    assume "\<not> list_all (\<lambda>t. semver_parse t \<noteq> None) ts"
    with c [THEN conjunct2, THEN conjunct2] have "find_tag_with_pattern r p = Inl ValueError"
      by (rule mp)
    with f show False by simp
  qed
  from c [THEN conjunct2, THEN conjunct1, THEN mp, OF conjI [OF ne all]]
  obtain t where t1: "find_tag_with_pattern r p = Inr (Some t)" and t2: "t \<in> set ts"
    and t3: "\<forall>u \<in> set ts. key_of u \<le> key_of t"
    by (elim exE conjE)
  from t1 f have "t = d" by simp
  with t2 t3 all show ?thesis by simp
qed

text \<open>What the current tag of a channel is, when there is one.\<close>

lemma current_channel_tag:
  assumes l: "lowers ch" and g: "get_current_tag r ch False = Inr (Some d)"
  shows "\<exists>X Y Z N.
           d = str_nat X @ ''.'' @ str_nat Y @ ''.'' @ str_nat Z @ ''-'' @ ch @ ''.'' @ str_nat N
         \<and> (\<forall>X' Y' Z' N'.
              str_nat X' @ ''.'' @ str_nat Y' @ ''.'' @ str_nat Z' @ ''-'' @ ch @ ''.'' @ str_nat N'
                \<in> set (tag_names r)
              \<longrightarrow> (X', Y', Z', N') \<le> (X, Y, Z, N))"
proof -
  define sh where "sh = (\<lambda>a b c n. a @ ''.'' @ b @ ''.'' @ c @ ''-'' @ ch @ ''.'' @ n)"
  define p where "p = ''^'' @ num @ dot @ num @ dot @ num @ ''-'' @ ch @ dot @ num @ ''$''"
  have she: "a @ ''.'' @ b @ ''.'' @ c @ ''-'' @ ch @ ''.'' @ n = sh a b c n" for a b c n
    by (simp add: sh_def)
  from get_current_tag_channel [OF l, of r] obtain ts where
    m0: "matching_tags (''^'' @ num @ dot @ num @ dot @ num @ ''-'' @ ch @ dot @ num @ ''$'') (tag_names r)
       = Inr ts"
    and s0: "set ts = {a @ ''.'' @ b @ ''.'' @ c @ ''-'' @ ch @ ''.'' @ n | a b c n.
                 digits a \<and> digits b \<and> digits c \<and> digits n
                 \<and> (a @ ''.'' @ b @ ''.'' @ c @ ''-'' @ ch @ ''.'' @ n \<in> set (tag_names r)
                    \<or> a @ ''.'' @ b @ ''.'' @ c @ ''-'' @ ch @ ''.'' @ n @ [newline] \<in> set (tag_names r))}"
    and e0: "get_current_tag r ch False
       = find_tag_with_pattern r (''^'' @ num @ dot @ num @ dot @ num @ ''-'' @ ch @ dot @ num @ ''$'')"
    by blast
  note m = m0 [folded p_def] and e = e0 [folded p_def]
  have s: "set ts = {sh a b c n | a b c n.
                 digits a \<and> digits b \<and> digits c \<and> digits n
                 \<and> (sh a b c n \<in> set (tag_names r) \<or> sh a b c n @ [newline] \<in> set (tag_names r))}"
    unfolding s0 sh_def by (simp only: append_assoc)
  from find_tag_with_pattern_Some [OF m g [unfolded e]]
  have d: "d \<in> set ts" and all: "list_all (\<lambda>t. semver_parse t \<noteq> None) ts"
    and mx: "\<forall>u \<in> set ts. key_of u \<le> key_of d"
    by simp_all
  from d [unfolded s] obtain a b c n where dg: "digits a" "digits b" "digits c" "digits n"
    and dd: "d = sh a b c n" by blast
  from all d have "semver_parse d \<noteq> None" by (simp add: list_all_iff)
  from channel_canonical [OF l dg this [unfolded dd sh_def]]
  obtain X Y Z N where c: "d = sh (str_nat X) (str_nat Y) (str_nat Z) (str_nat N)"
    unfolding dd sh_def by blast
  have k: "key_of (sh (str_nat A) (str_nat B) (str_nat C) (str_nat D))
      = ((A, B, C), 0, [ident_key ch, (0, D, [])])" for A B C D
    unfolding sh_def by (rule key_of_channel [OF l])
  have "(X', Y', Z', N') \<le> (X, Y, Z, N)"
    if "sh (str_nat X') (str_nat Y') (str_nat Z') (str_nat N') \<in> set (tag_names r)" for X' Y' Z' N'
  proof -
    have "sh (str_nat X') (str_nat Y') (str_nat Z') (str_nat N') \<in> set ts"
      unfolding s using that digits_str_nat by blast
    with mx have "key_of (sh (str_nat X') (str_nat Y') (str_nat Z') (str_nat N')) \<le> key_of d"
      by (rule bspec)
    then show ?thesis unfolding c k channel_key_le .
  qed
  with c show ?thesis unfolding sh_def by blast
qed

text \<open>The converse, in a repository of names without a newline whose channel tags parse.\<close>

lemma current_channel_tag_highest:
  assumes l: "lowers ch"
    and nl: "\<forall>t \<in> set (tag_names r). newline \<notin> set t"
    and ps: "\<forall>a b c n. digits a \<and> digits b \<and> digits c \<and> digits n
               \<and> a @ ''.'' @ b @ ''.'' @ c @ ''-'' @ ch @ ''.'' @ n \<in> set (tag_names r)
               \<longrightarrow> semver_parse (a @ ''.'' @ b @ ''.'' @ c @ ''-'' @ ch @ ''.'' @ n) \<noteq> None"
    and T: "str_nat X @ ''.'' @ str_nat Y @ ''.'' @ str_nat Z @ ''-'' @ ch @ ''.'' @ str_nat N
              \<in> set (tag_names r)"
    and mx: "\<forall>X' Y' Z' N'.
              str_nat X' @ ''.'' @ str_nat Y' @ ''.'' @ str_nat Z' @ ''-'' @ ch @ ''.'' @ str_nat N'
                \<in> set (tag_names r)
              \<longrightarrow> (X', Y', Z', N') \<le> (X, Y, Z, N)"
  shows "get_current_tag r ch False
           = Inr (Some (str_nat X @ ''.'' @ str_nat Y @ ''.'' @ str_nat Z @ ''-'' @ ch @ ''.'' @ str_nat N))"
proof -
  define sh where "sh = (\<lambda>a b c n. a @ ''.'' @ b @ ''.'' @ c @ ''-'' @ ch @ ''.'' @ n)"
  define p where "p = ''^'' @ num @ dot @ num @ dot @ num @ ''-'' @ ch @ dot @ num @ ''$''"
  have she: "a @ ''.'' @ b @ ''.'' @ c @ ''-'' @ ch @ ''.'' @ n = sh a b c n" for a b c n
    by (simp add: sh_def)
  note ps' = ps [unfolded she] and T' = T [unfolded she] and mx' = mx [unfolded she]
  from get_current_tag_channel [OF l, of r] obtain ts where
    m0: "matching_tags (''^'' @ num @ dot @ num @ dot @ num @ ''-'' @ ch @ dot @ num @ ''$'') (tag_names r)
       = Inr ts"
    and s0: "set ts = {a @ ''.'' @ b @ ''.'' @ c @ ''-'' @ ch @ ''.'' @ n | a b c n.
                 digits a \<and> digits b \<and> digits c \<and> digits n
                 \<and> (a @ ''.'' @ b @ ''.'' @ c @ ''-'' @ ch @ ''.'' @ n \<in> set (tag_names r)
                    \<or> a @ ''.'' @ b @ ''.'' @ c @ ''-'' @ ch @ ''.'' @ n @ [newline] \<in> set (tag_names r))}"
    and e0: "get_current_tag r ch False
       = find_tag_with_pattern r (''^'' @ num @ dot @ num @ dot @ num @ ''-'' @ ch @ dot @ num @ ''$'')"
    by blast
  note m = m0 [folded p_def] and e = e0 [folded p_def]
  have s: "set ts = {sh a b c n | a b c n.
                 digits a \<and> digits b \<and> digits c \<and> digits n
                 \<and> (sh a b c n \<in> set (tag_names r) \<or> sh a b c n @ [newline] \<in> set (tag_names r))}"
    unfolding s0 sh_def by (simp only: append_assoc)
  have no: "u @ [newline] \<notin> set (tag_names r)" for u
  proof
    assume "u @ [newline] \<in> set (tag_names r)"
    with nl have "newline \<notin> set (u @ [newline])" by (rule bspec)
    then show False by simp
  qed
  have s': "set ts = {sh a b c n | a b c n.
                 digits a \<and> digits b \<and> digits c \<and> digits n \<and> sh a b c n \<in> set (tag_names r)}"
    unfolding s using no by blast
  have can: "\<exists>A B C D. u = sh (str_nat A) (str_nat B) (str_nat C) (str_nat D)
                \<and> u \<in> set (tag_names r) \<and> semver_parse u \<noteq> None"
    if "u \<in> set ts" for u
  proof -
    from that [unfolded s'] obtain a b c n where dg: "digits a" "digits b" "digits c" "digits n"
      and u: "u = sh a b c n" and i: "sh a b c n \<in> set (tag_names r)" by blast
    from ps' dg i have q: "semver_parse (sh a b c n) \<noteq> None" by blast
    from channel_canonical [OF l dg q [unfolded sh_def]] i q
    show ?thesis unfolding u sh_def by blast
  qed
  have all: "list_all (\<lambda>t. semver_parse t \<noteq> None) ts"
    unfolding list_all_iff using can by blast
  have Tin: "sh (str_nat X) (str_nat Y) (str_nat Z) (str_nat N) \<in> set ts"
    unfolding s' using T' digits_str_nat by blast
  then have ne: "ts \<noteq> []" by auto
  from find_tag_with_pattern_cases [OF m, THEN conjunct2, THEN conjunct1, THEN mp, OF conjI [OF ne all]]
  obtain t where t1: "find_tag_with_pattern r p = Inr (Some t)" and t2: "t \<in> set ts"
    and t3: "\<forall>u \<in> set ts. key_of u \<le> key_of t"
    by (elim exE conjE)
  from can [OF t2] obtain A B C D where t: "t = sh (str_nat A) (str_nat B) (str_nat C) (str_nat D)"
    and ti: "t \<in> set (tag_names r)" by blast
  have k: "key_of (sh (str_nat A) (str_nat B) (str_nat C) (str_nat D))
      = ((A, B, C), 0, [ident_key ch, (0, D, [])])" for A B C D
    unfolding sh_def by (rule key_of_channel [OF l])
  from t3 Tin have "key_of (sh (str_nat X) (str_nat Y) (str_nat Z) (str_nat N)) \<le> key_of t"
    by (rule bspec)
  then have 1: "(X, Y, Z, N) \<le> (A, B, C, D)" unfolding t k channel_key_le .
  from mx' ti [unfolded t] have 2: "(A, B, C, D) \<le> (X, Y, Z, N)" by blast
  from channel_tuple_eq [OF 2 1] have "t = sh (str_nat X) (str_nat Y) (str_nat Z) (str_nat N)"
    unfolding t by simp
  with t1 show ?thesis unfolding e sh_def by simp
qed

text \<open>\<open>create_prod_tag\<close> on the release candidate that \<open>init_new_rc\<close> has just created.\<close>

lemma promote_after_init:
  assumes B: "B = str_nat X @ ''.'' @ str_nat Y @ ''.'' @ str_nat Z"
    and rc: "rc = B @ ''-rc.1''" and fresh: "rc \<notin> set (tag_names r)"
    and r': "r' = r\<lparr>tags := tags r @ [(rc, c)]\<rparr>"
  shows "create_prod_tag r' rc =
           (if B \<in> set (tag_names r) then (Inl GitCommandError, r')
            else (Inr B, r'\<lparr>tags := tags r' @ [(B, c)]\<rparr>))"
proof -
  have rcs: "rc = str_nat X @ ''.'' @ str_nat Y @ ''.'' @ str_nat Z @ ''-'' @ ''rc'' @ ''.'' @ str_nat 1"
    unfolding rc B str_nat_1 by simp
  have cm: "commit r' rc = Inr c" unfolding r' by (rule commit_new_tag [OF fresh])
  have "create_prod_tag r' rc = create_and_return r' B (commit r' rc)"
    unfolding B
    using create_prod_tag_ok [of "''rc''" r' X Y Z 1, folded rcs]
    by simp
  then have cp: "create_prod_tag r' rc = create_and_return r' B (Inr c)" unfolding cm .
  have nm: "tag_names r' = tag_names r @ [rc]" unfolding r' by (simp add: tag_names_def)
  have "B \<noteq> rc" unfolding rc by simp
  then have mem: "B \<in> set (tag_names r') \<longleftrightarrow> B \<in> set (tag_names r)" unfolding nm by simp
  show ?thesis
    unfolding cp using mem by (simp add: create_and_return_def create_tag_def)
qed

lemma commit_existing:
  assumes "t \<in> set (tag_names r)"
  shows "\<exists>c. commit r t = Inr c"
proof -
  from assms have "map_of (tags r) t \<noteq> None"
    by (simp add: tag_names_def map_of_eq_None_iff)
  then show ?thesis by (auto simp: commit_def)
qed

lemma commit_member: "commit r t = Inr c \<Longrightarrow> t \<in> set (tag_names r)"
  by (auto simp: commit_def tag_names_def split: option.splits dest: map_of_SomeD intro: rev_image_eqI)

lemma init_new_rc_channel:
  assumes l: "lowers ch"
    and g: "get_current_tag r ch False
           = Inr (Some (str_nat X @ ''.'' @ str_nat Y @ ''.'' @ str_nat Z @ ''-'' @ ch @ ''.'' @ str_nat N))"
  shows "init_new_rc r ch = create_and_return_opt r
           (str_nat X @ ''.'' @ str_nat Y @ ''.'' @ str_nat Z @ ''-rc.1'')
           (commit r (str_nat X @ ''.'' @ str_nat Y @ ''.'' @ str_nat Z @ ''-'' @ ch @ ''.'' @ str_nat N))"
proof -
  define T where "T = str_nat X @ ''.'' @ str_nat Y @ ''.'' @ str_nat Z @ ''-'' @ ch @ ''.'' @ str_nat N"
  have ne: "T \<noteq> []" using str_nat_nonempty [of X] by (simp add: T_def)
  have p: "VersionInfo_parse T = Inr \<lparr>major = X, minor = Y, patch = Z,
      prerelease = Some (ch @ ''.'' @ str_nat N), build = None\<rparr>"
    unfolding T_def VersionInfo_parse_def semver_parse_channel [OF l] by simp
  have b: "base_str \<lparr>major = X, minor = Y, patch = Z,
      prerelease = Some (ch @ ''.'' @ str_nat N), build = None\<rparr> @ ''-rc.1''
      = str_nat X @ ''.'' @ str_nat Y @ ''.'' @ str_nat Z @ ''-rc.1''"
    by (simp add: base_str_def)
  show ?thesis
    unfolding init_new_rc_def g [folded T_def] T_def [symmetric]
    using ne by (simp only: sum.case option.case if_False p Let_def b)
qed

lemma round_trip_forward:
  assumes l: "lowers ch"
    and nl: "\<forall>t \<in> set (tag_names r). newline \<notin> set t"
    and ps: "\<forall>a b c n. digits a \<and> digits b \<and> digits c \<and> digits n
               \<and> a @ ''.'' @ b @ ''.'' @ c @ ''-'' @ ch @ ''.'' @ n \<in> set (tag_names r)
               \<longrightarrow> semver_parse (a @ ''.'' @ b @ ''.'' @ c @ ''-'' @ ch @ ''.'' @ n) \<noteq> None"
    and B: "B = str_nat X @ ''.'' @ str_nat Y @ ''.'' @ str_nat Z"
    and T: "B @ ''-'' @ ch @ ''.'' @ str_nat N \<in> set (tag_names r)"
    and mx: "\<forall>X' Y' Z' N'.
              str_nat X' @ ''.'' @ str_nat Y' @ ''.'' @ str_nat Z' @ ''-'' @ ch @ ''.'' @ str_nat N'
                \<in> set (tag_names r)
              \<longrightarrow> (X', Y', Z', N') \<le> (X, Y, Z, N)"
    and rc: "rc = B @ ''-rc.1''"
  shows "\<exists>c. commit r (B @ ''-'' @ ch @ ''.'' @ str_nat N) = Inr c
          \<and> get_current_tag r ch False = Inr (Some (B @ ''-'' @ ch @ ''.'' @ str_nat N))
          \<and> (rc \<in> set (tag_names r) \<longrightarrow> init_new_rc r ch = (Inl GitCommandError, r))
          \<and> (rc \<notin> set (tag_names r) \<longrightarrow>
               init_new_rc r ch = (Inr (Some rc), r\<lparr>tags := tags r @ [(rc, c)]\<rparr>)
               \<and> create_prod_tag (r\<lparr>tags := tags r @ [(rc, c)]\<rparr>) rc =
                   (if B \<in> set (tag_names r)
                    then (Inl GitCommandError, r\<lparr>tags := tags r @ [(rc, c)]\<rparr>)
                    else (Inr B, r\<lparr>tags := tags r @ [(rc, c), (B, c)]\<rparr>)))"
proof -
  define Tg where "Tg = B @ ''-'' @ ch @ ''.'' @ str_nat N"
  have Te: "Tg = str_nat X @ ''.'' @ str_nat Y @ ''.'' @ str_nat Z @ ''-'' @ ch @ ''.'' @ str_nat N"
    unfolding Tg_def B by simp
  have rce: "rc = str_nat X @ ''.'' @ str_nat Y @ ''.'' @ str_nat Z @ ''-rc.1''"
    unfolding rc B by simp
  note T' = T [folded Tg_def]
  have g: "get_current_tag r ch False = Inr (Some Tg)"
    unfolding Te by (rule current_channel_tag_highest [OF l nl ps T' [unfolded Te] mx])
  from commit_existing [OF T'] obtain c where c: "commit r Tg = Inr c" ..
  have i: "init_new_rc r ch = create_and_return_opt r rc (Inr c)"
    using init_new_rc_channel [OF l g [unfolded Te]] unfolding Te [symmetric] rce [symmetric] c .
  have dup: "init_new_rc r ch = (Inl GitCommandError, r)" if "rc \<in> set (tag_names r)"
    unfolding i using that
    by (simp add: create_and_return_opt_def create_and_return_def create_tag_def)
  have ok: "init_new_rc r ch = (Inr (Some rc), r\<lparr>tags := tags r @ [(rc, c)]\<rparr>)
      \<and> create_prod_tag (r\<lparr>tags := tags r @ [(rc, c)]\<rparr>) rc =
                   (if B \<in> set (tag_names r)
                    then (Inl GitCommandError, r\<lparr>tags := tags r @ [(rc, c)]\<rparr>)
                    else (Inr B, r\<lparr>tags := tags r @ [(rc, c), (B, c)]\<rparr>))"
    if fresh: "rc \<notin> set (tag_names r)"
  proof
    show "init_new_rc r ch = (Inr (Some rc), r\<lparr>tags := tags r @ [(rc, c)]\<rparr>)"
      unfolding i by (rule create_and_return_opt_fresh [OF fresh])
    show "create_prod_tag (r\<lparr>tags := tags r @ [(rc, c)]\<rparr>) rc =
                   (if B \<in> set (tag_names r)
                    then (Inl GitCommandError, r\<lparr>tags := tags r @ [(rc, c)]\<rparr>)
                    else (Inr B, r\<lparr>tags := tags r @ [(rc, c), (B, c)]\<rparr>))"
      using promote_after_init [OF B rc fresh refl, of c] by simp
  qed
  from c g dup ok show ?thesis unfolding Tg_def by blast
qed

lemma round_trip_backward:
  assumes l: "lowers ch" and i: "init_new_rc r ch = (Inr (Some rc), r')"
  shows "\<exists>X Y Z N c B.
           B = str_nat X @ ''.'' @ str_nat Y @ ''.'' @ str_nat Z
         \<and> get_current_tag r ch False = Inr (Some (B @ ''-'' @ ch @ ''.'' @ str_nat N))
         \<and> (\<forall>X' Y' Z' N'.
              str_nat X' @ ''.'' @ str_nat Y' @ ''.'' @ str_nat Z' @ ''-'' @ ch @ ''.'' @ str_nat N'
                \<in> set (tag_names r)
              \<longrightarrow> (X', Y', Z', N') \<le> (X, Y, Z, N))
         \<and> commit r (B @ ''-'' @ ch @ ''.'' @ str_nat N) = Inr c
         \<and> rc = B @ ''-rc.1''
         \<and> rc \<notin> set (tag_names r)
         \<and> r' = r\<lparr>tags := tags r @ [(rc, c)]\<rparr>
         \<and> create_prod_tag r' rc =
             (if B \<in> set (tag_names r) then (Inl GitCommandError, r')
              else (Inr B, r\<lparr>tags := tags r @ [(rc, c), (B, c)]\<rparr>))"
proof -
  from init_new_rc_Some [OF i] obtain d v c
    where d: "get_current_tag r ch False = Inr (Some d)" and p: "semver_parse d = Some v"
      and c: "commit r d = Inr c" and rc: "rc = base_str v @ ''-rc.1''"
      and fresh: "rc \<notin> set (tag_names r)" and r': "r' = r\<lparr>tags := tags r @ [(rc, c)]\<rparr>"
    by blast
  from current_channel_tag [OF l d] obtain X Y Z N
    where de: "d = str_nat X @ ''.'' @ str_nat Y @ ''.'' @ str_nat Z @ ''-'' @ ch @ ''.'' @ str_nat N"
      and mx: "\<forall>X' Y' Z' N'.
              str_nat X' @ ''.'' @ str_nat Y' @ ''.'' @ str_nat Z' @ ''-'' @ ch @ ''.'' @ str_nat N'
                \<in> set (tag_names r)
              \<longrightarrow> (X', Y', Z', N') \<le> (X, Y, Z, N)"
    by blast
  define B where "B = str_nat X @ ''.'' @ str_nat Y @ ''.'' @ str_nat Z"
  have dB: "d = B @ ''-'' @ ch @ ''.'' @ str_nat N" unfolding de B_def by simp
  from p [unfolded de semver_parse_channel [OF l]]
  have v: "v = \<lparr>major = X, minor = Y, patch = Z, prerelease = Some (ch @ ''.'' @ str_nat N),
      build = None\<rparr>" by simp
  have rcB: "rc = B @ ''-rc.1''" unfolding rc v B_def by (simp add: base_str_def)
  have fin: "create_prod_tag r' rc =
             (if B \<in> set (tag_names r) then (Inl GitCommandError, r')
              else (Inr B, r\<lparr>tags := tags r @ [(rc, c), (B, c)]\<rparr>))"
    using promote_after_init [OF B_def rcB fresh r'] unfolding r' by simp
  from B_def d [unfolded dB] mx c [unfolded dB] rcB fresh r' fin show ?thesis by blast
qed

section \<open>The claims\<close>

text \<open>
  C10. For a base that matches the \<open>X.Y.Z\<close> grammar and a channel other than \<^verbatim>\<open>rc\<close> and
  \<^verbatim>\<open>patch\<close>, \<open>increment_rc_patch\<close> reaches \<^verbatim>\<open>if current_rc:\<close> with \<open>current_rc\<close> never
  assigned and raises \<open>UnboundLocalError\<close>, creating no tag; it neither returns \<open>None\<close> nor
  raises a format or illegal-transition error. For the channels \<^verbatim>\<open>rc\<close> and \<^verbatim>\<open>patch\<close> it
  never raises that error.
\<close>

theorem increment_rc_patch_unbound:
  assumes "require_fullmatch production_pattern tag = Inr ()"
  shows "(prerelease_tag \<noteq> ''rc'' \<and> prerelease_tag \<noteq> ''patch''
            \<longrightarrow> increment_rc_patch r tag prerelease_tag = (Inl UnboundLocalError, r))
         \<and> (prerelease_tag = ''rc'' \<or> prerelease_tag = ''patch''
            \<longrightarrow> fst (increment_rc_patch r tag prerelease_tag) \<noteq> Inl UnboundLocalError)"
proof (cases "prerelease_tag = ''rc'' \<or> prerelease_tag = ''patch''")
  case False
  then show ?thesis
    using assms by (simp add: increment_rc_patch_def py_and_def)
next
  case True
  have "fst (increment_rc_patch r tag prerelease_tag) \<noteq> Inl UnboundLocalError"
    using True assms
    by (auto simp: increment_rc_patch_def py_and_def py_not_def and_then_Inl_iff
        and_then_Inr_iff find_tag_not_unbound get_current_rc_patch_not_unbound
        VersionInfo_parse_not_unbound create_and_return_opt_not_unbound
        split: sum.splits option.splits if_splits)
  with True show ?thesis by auto
qed

theorem increment_rc_patch_unbound_witness:
  "require_fullmatch production_pattern ''1.0.0'' = Inr ()
   \<and> increment_rc_patch \<lparr>tags = [(''1.0.0'', 1)], head = 1\<rparr> ''1.0.0'' ''dev''
       = (Inl UnboundLocalError, \<lparr>tags = [(''1.0.0'', 1)], head = 1\<rparr>)
   \<and> fst (increment_rc_patch \<lparr>tags = [(''1.0.0'', 1)], head = 1\<rparr> ''1.0.0'' ''rc'')
       \<noteq> Inl UnboundLocalError"
proof -
  have h: "require_fullmatch production_pattern ''1.0.0'' = Inr ()"
    by code_simp
  show ?thesis
    using h increment_rc_patch_unbound [OF h, of "''dev''" "\<lparr>tags = [(''1.0.0'', 1)], head = 1\<rparr>"]
      increment_rc_patch_unbound [OF h, of "''rc''" "\<lparr>tags = [(''1.0.0'', 1)], head = 1\<rparr>"]
    by simp
qed

text \<open>
  C9. For every base \<open>X.Y.Z\<close> (three non-negative integers as \<open>str\<close> prints them), every
  channel of lower-case letters and every ordinal \<open>N\<close>, \<open>get_init_rc_tag\<close> applied to
  \<^verbatim>\<open>base-channel.N\<close> returns \<^verbatim>\<open>base-rc.1\<close>; on every string that is not of the shape
  digits, dot, digits, dot, digits, hyphen, lower-case letters, dot, digits it raises
  \<open>ValueError\<close>.
\<close>

theorem get_init_rc_tag_spec:
  "(lowers channel \<longrightarrow>
      get_init_rc_tag (str_nat X @ ''.'' @ str_nat Y @ ''.'' @ str_nat Z @ ''-'' @ channel @ ''.'' @ str_nat N)
        = Inr (str_nat X @ ''.'' @ str_nat Y @ ''.'' @ str_nat Z @ ''-rc.1''))
   \<and> (\<not> (\<exists>a b c ch n. digits a \<and> digits b \<and> digits c \<and> lowers ch \<and> digits n
            \<and> s = a @ ''.'' @ b @ ''.'' @ c @ ''-'' @ ch @ ''.'' @ n)
        \<longrightarrow> get_init_rc_tag s = Inl ValueError)"
proof (intro conjI impI)
  assume l: "lowers channel"
  show "get_init_rc_tag (str_nat X @ ''.'' @ str_nat Y @ ''.'' @ str_nat Z @ ''-'' @ channel @ ''.'' @ str_nat N)
        = Inr (str_nat X @ ''.'' @ str_nat Y @ ''.'' @ str_nat Z @ ''-rc.1'')"
    unfolding get_init_rc_tag_def require_fullmatch_prerelease_ok [OF l] VersionInfo_parse_def
      semver_parse_channel [OF l]
    by (simp add: base_str_simp)
next
  assume "\<not> (\<exists>a b c ch n. digits a \<and> digits b \<and> digits c \<and> lowers ch \<and> digits n
            \<and> s = a @ ''.'' @ b @ ''.'' @ c @ ''-'' @ ch @ ''.'' @ n)"
  then have "require_fullmatch prerelease_pattern s = Inl ValueError"
    unfolding require_fullmatch_prerelease by simp
  then show "get_init_rc_tag s = Inl ValueError"
    by (simp add: get_init_rc_tag_def)
qed

theorem get_init_rc_tag_spec_witness:
  "lowers ''dev''
   \<and> get_init_rc_tag ''12.0.3-dev.40'' = Inr ''12.0.3-rc.1''
   \<and> \<not> (\<exists>a b c ch n. digits a \<and> digits b \<and> digits c \<and> lowers ch \<and> digits n
            \<and> ''1.0.0'' = a @ ''.'' @ b @ ''.'' @ c @ ''-'' @ ch @ ''.'' @ n)
   \<and> get_init_rc_tag ''1.0.0'' = Inl ValueError"
proof -
  have l: "lowers ''dev''" by code_simp
  have e: "str_nat 12 @ ''.'' @ str_nat 0 @ ''.'' @ str_nat 3 @ ''-'' @ ''dev'' @ ''.'' @ str_nat 40
             = ''12.0.3-dev.40''"
    "str_nat 12 @ ''.'' @ str_nat 0 @ ''.'' @ str_nat 3 @ ''-rc.1'' = ''12.0.3-rc.1''"
    by code_simp+
  have "require_fullmatch prerelease_pattern ''1.0.0'' = Inl ValueError" by code_simp
  then have n: "\<not> (\<exists>a b c ch n. digits a \<and> digits b \<and> digits c \<and> lowers ch \<and> digits n
            \<and> ''1.0.0'' = a @ ''.'' @ b @ ''.'' @ c @ ''-'' @ ch @ ''.'' @ n)"
    unfolding require_fullmatch_prerelease by (simp split: if_splits)
  show ?thesis
    using l n get_init_rc_tag_spec [of "''dev''" 12 0 3 40 "''1.0.0''"]
    unfolding e by blast
qed

text \<open>
  C2. \<open>create_prod_tag\<close> on a tag \<^verbatim>\<open>X.Y.Z-rc.N\<close> or \<^verbatim>\<open>X.Y.Z-patch.N\<close> whose numbers are
  written as \<open>str\<close> prints them creates and returns \<^verbatim>\<open>X.Y.(Z+1)\<close> for \<^verbatim>\<open>patch\<close> and
  \<^verbatim>\<open>X.Y.Z\<close> for \<^verbatim>\<open>rc\<close>: it ends as the creation of that name at the commit of the tag
  does. On every string that is not of the shape of the rc-or-patch grammar it raises
  \<open>ValueError\<close> and leaves the repository alone, and so it does on a string of that shape
  that is not valid SemVer. In a repository that has \<^verbatim>\<open>1.0.0-patch.1\<close> and not \<^verbatim>\<open>1.0.1\<close>,
  \<^verbatim>\<open>create_prod_tag("1.0.0-patch.1")\<close> returns \<^verbatim>\<open>1.0.1\<close>.
\<close>

theorem create_prod_tag_spec:
  "(ch = ''rc'' \<or> ch = ''patch'' \<longrightarrow>
      create_prod_tag r (str_nat X @ ''.'' @ str_nat Y @ ''.'' @ str_nat Z @ ''-'' @ ch @ ''.'' @ str_nat N)
        = create_and_return r
            (str_nat X @ ''.'' @ str_nat Y @ ''.'' @ str_nat (if ch = ''patch'' then Z + 1 else Z))
            (commit r (str_nat X @ ''.'' @ str_nat Y @ ''.'' @ str_nat Z @ ''-'' @ ch @ ''.'' @ str_nat N)))
   \<and> (\<not> (\<exists>a b c ch n. digits a \<and> digits b \<and> digits c \<and> (ch = ''rc'' \<or> ch = ''patch'')
            \<and> digits n \<and> s = a @ ''.'' @ b @ ''.'' @ c @ ''-'' @ ch @ ''.'' @ n)
        \<longrightarrow> create_prod_tag r s = (Inl ValueError, r))
   \<and> (require_fullmatch rc_patch_pattern s = Inr () \<and> semver_parse s = None
        \<longrightarrow> create_prod_tag r s = (Inl ValueError, r))
   \<and> (map_of (tags r) ''1.0.0-patch.1'' = Some k \<and> ''1.0.1'' \<notin> set (tag_names r)
        \<longrightarrow> create_prod_tag r ''1.0.0-patch.1'' = (Inr ''1.0.1'', r\<lparr>tags := tags r @ [(''1.0.1'', k)]\<rparr>))"
proof (intro conjI impI)
  assume "ch = ''rc'' \<or> ch = ''patch''"
  then show "create_prod_tag r (str_nat X @ ''.'' @ str_nat Y @ ''.'' @ str_nat Z @ ''-'' @ ch @ ''.'' @ str_nat N)
        = create_and_return r
            (str_nat X @ ''.'' @ str_nat Y @ ''.'' @ str_nat (if ch = ''patch'' then Z + 1 else Z))
            (commit r (str_nat X @ ''.'' @ str_nat Y @ ''.'' @ str_nat Z @ ''-'' @ ch @ ''.'' @ str_nat N))"
    by (rule create_prod_tag_ok)
next
  assume "\<not> (\<exists>a b c ch n. digits a \<and> digits b \<and> digits c \<and> (ch = ''rc'' \<or> ch = ''patch'')
            \<and> digits n \<and> s = a @ ''.'' @ b @ ''.'' @ c @ ''-'' @ ch @ ''.'' @ n)"
  then have "require_fullmatch rc_patch_pattern s = Inl ValueError"
    unfolding require_fullmatch_rc_patch by simp
  then show "create_prod_tag r s = (Inl ValueError, r)"
    by (rule create_prod_tag_no_match)
next
  assume "require_fullmatch rc_patch_pattern s = Inr () \<and> semver_parse s = None"
  then show "create_prod_tag r s = (Inl ValueError, r)"
    using create_prod_tag_no_parse by blast
next
  assume a: "map_of (tags r) ''1.0.0-patch.1'' = Some k \<and> ''1.0.1'' \<notin> set (tag_names r)"
  have e: "str_nat 1 @ ''.'' @ str_nat 0 @ ''.'' @ str_nat 0 @ ''-'' @ ''patch'' @ ''.'' @ str_nat 1
            = ''1.0.0-patch.1''"
    "str_nat 1 @ ''.'' @ str_nat 0 @ ''.'' @ str_nat (if ''patch'' = ''patch'' then 0 + 1 else 0) = ''1.0.1''"
    by code_simp+
  have "create_prod_tag r ''1.0.0-patch.1''
          = create_and_return r ''1.0.1'' (commit r ''1.0.0-patch.1'')"
    using create_prod_tag_ok [of "''patch''" r 1 0 0 1] unfolding e by simp
  then show "create_prod_tag r ''1.0.0-patch.1'' = (Inr ''1.0.1'', r\<lparr>tags := tags r @ [(''1.0.1'', k)]\<rparr>)"
    using a by (simp add: create_and_return_def commit_def create_tag_def)
qed

theorem create_prod_tag_spec_witness:
  "(''rc'' = ''rc'' \<or> ''rc'' = ''patch'')
   \<and> create_prod_tag \<lparr>tags = [(''2.1.0-rc.3'', 5)], head = 6\<rparr> ''2.1.0-rc.3''
        = (Inr ''2.1.0'', \<lparr>tags = [(''2.1.0-rc.3'', 5), (''2.1.0'', 5)], head = 6\<rparr>)
   \<and> require_fullmatch rc_patch_pattern ''01.0.0-rc.1'' = Inr () \<and> semver_parse ''01.0.0-rc.1'' = None
   \<and> create_prod_tag \<lparr>tags = [(''1.0.0-patch.1'', 5)], head = 6\<rparr> ''01.0.0-rc.1''
        = (Inl ValueError, \<lparr>tags = [(''1.0.0-patch.1'', 5)], head = 6\<rparr>)
   \<and> \<not> (\<exists>a b c ch n. digits a \<and> digits b \<and> digits c \<and> (ch = ''rc'' \<or> ch = ''patch'')
            \<and> digits n \<and> ''1.0.0-dev.1'' = a @ ''.'' @ b @ ''.'' @ c @ ''-'' @ ch @ ''.'' @ n)
   \<and> create_prod_tag \<lparr>tags = [(''1.0.0-patch.1'', 5)], head = 6\<rparr> ''1.0.0-dev.1''
        = (Inl ValueError, \<lparr>tags = [(''1.0.0-patch.1'', 5)], head = 6\<rparr>)
   \<and> map_of (tags \<lparr>tags = [(''1.0.0-patch.1'', 5)], head = 6\<rparr>) ''1.0.0-patch.1'' = Some 5
   \<and> ''1.0.1'' \<notin> set (tag_names \<lparr>tags = [(''1.0.0-patch.1'', 5)], head = 6\<rparr>)
   \<and> create_prod_tag \<lparr>tags = [(''1.0.0-patch.1'', 5)], head = 6\<rparr> ''1.0.0-patch.1''
        = (Inr ''1.0.1'', \<lparr>tags = [(''1.0.0-patch.1'', 5), (''1.0.1'', 5)], head = 6\<rparr>)"
proof -
  let ?r = "\<lparr>tags = [(''1.0.0-patch.1'', 5)], head = 6\<rparr>"
  let ?q = "\<lparr>tags = [(''2.1.0-rc.3'', 5)], head = 6\<rparr>"
  have e: "str_nat 2 @ ''.'' @ str_nat 1 @ ''.'' @ str_nat 0 @ ''-'' @ ''rc'' @ ''.'' @ str_nat 3
            = ''2.1.0-rc.3''"
    "str_nat 2 @ ''.'' @ str_nat 1 @ ''.'' @ str_nat (if ''rc'' = ''patch'' then 0 + 1 else 0) = ''2.1.0''"
    by code_simp+
  have c: "create_and_return ?q ''2.1.0'' (commit ?q ''2.1.0-rc.3'')
             = (Inr ''2.1.0'', \<lparr>tags = [(''2.1.0-rc.3'', 5), (''2.1.0'', 5)], head = 6\<rparr>)"
    by (simp add: create_and_return_def commit_def create_tag_def tag_names_def)
  have m: "require_fullmatch rc_patch_pattern ''01.0.0-rc.1'' = Inr ()" by code_simp
  have p: "semver_parse ''01.0.0-rc.1'' = None" by code_simp
  have "require_fullmatch rc_patch_pattern ''1.0.0-dev.1'' = Inl ValueError" by code_simp
  then have n: "\<not> (\<exists>a b c ch n. digits a \<and> digits b \<and> digits c \<and> (ch = ''rc'' \<or> ch = ''patch'')
            \<and> digits n \<and> ''1.0.0-dev.1'' = a @ ''.'' @ b @ ''.'' @ c @ ''-'' @ ch @ ''.'' @ n)"
    unfolding require_fullmatch_rc_patch by (simp split: if_splits)
  have k: "map_of (tags ?r) ''1.0.0-patch.1'' = Some 5 \<and> ''1.0.1'' \<notin> set (tag_names ?r)"
    by (simp add: tag_names_def)
  show ?thesis
    using create_prod_tag_spec [of "''rc''" ?q 2 1 0 3 "''1.0.0-dev.1''" 5]
      create_prod_tag_spec [of "''rc''" ?r 2 1 0 3 "''1.0.0-dev.1''" 5]
      create_prod_tag_spec [of "''rc''" ?r 2 1 0 3 "''01.0.0-rc.1''" 5]
      n m p k
    unfolding e c by simp
qed

theorem create_prod_tag_counterexample:
  "require_fullmatch rc_patch_pattern ''01.0.0-rc.1'' = Inr ()
   \<and> fst (create_prod_tag \<lparr>tags = [(''01.0.0-rc.1'', 1)], head = 1\<rparr> ''01.0.0-rc.1'') = Inl ValueError"
  by code_simp

text \<open>
  C3. For every base that matches the \<open>X.Y.Z\<close> grammar, if a tag named exactly base exists
  in the repository then \<open>increment_rc_patch\<close> with channel \<^verbatim>\<open>rc\<close> raises
  \<open>InvalidTagCreation\<close> and leaves the repository as it was. Hence, once \<open>create_prod_tag\<close>
  has created and returned a production tag \<open>P\<close>, \<open>P\<close> is in the repository, and in every
  repository that has \<open>P\<close> the call \<^verbatim>\<open>increment_rc_patch(P, "rc")\<close> raises that error.
\<close>

theorem increment_rc_patch_rc_illegal:
  "(require_fullmatch production_pattern base = Inr () \<and> base \<in> set (tag_names r) \<longrightarrow>
      increment_rc_patch r base ''rc'' =
        (Inl (InvalidTagCreation
           ''Production version available. Cannot create Release Candidate version!''), r))
   \<and> (create_prod_tag r tag = (Inr P, r') \<longrightarrow>
        P \<in> set (tag_names r')
        \<and> (\<forall>r''. P \<in> set (tag_names r'') \<longrightarrow>
              increment_rc_patch r'' P ''rc'' =
                (Inl (InvalidTagCreation
                   ''Production version available. Cannot create Release Candidate version!''), r'')))"
  using increment_rc_patch_rc_exists create_prod_tag_Inr by blast

theorem increment_rc_patch_rc_illegal_witness:
  "require_fullmatch production_pattern ''1.0.0'' = Inr ()
   \<and> ''1.0.0'' \<in> set (tag_names \<lparr>tags = [(''1.0.0-rc.1'', 3), (''1.0.0'', 3)], head = 4\<rparr>)
   \<and> increment_rc_patch \<lparr>tags = [(''1.0.0-rc.1'', 3), (''1.0.0'', 3)], head = 4\<rparr> ''1.0.0'' ''rc'' =
        (Inl (InvalidTagCreation
           ''Production version available. Cannot create Release Candidate version!''),
         \<lparr>tags = [(''1.0.0-rc.1'', 3), (''1.0.0'', 3)], head = 4\<rparr>)
   \<and> create_prod_tag \<lparr>tags = [(''1.0.0-rc.1'', 3)], head = 4\<rparr> ''1.0.0-rc.1''
        = (Inr ''1.0.0'', \<lparr>tags = [(''1.0.0-rc.1'', 3), (''1.0.0'', 3)], head = 4\<rparr>)
   \<and> ''1.0.0'' \<in> set (tag_names \<lparr>tags = [(''1.0.0-rc.1'', 3), (''1.0.0'', 3), (''1.0.0-x'', 9)], head = 4\<rparr>)
   \<and> increment_rc_patch \<lparr>tags = [(''1.0.0-rc.1'', 3), (''1.0.0'', 3), (''1.0.0-x'', 9)], head = 4\<rparr> ''1.0.0'' ''rc'' =
        (Inl (InvalidTagCreation
           ''Production version available. Cannot create Release Candidate version!''),
         \<lparr>tags = [(''1.0.0-rc.1'', 3), (''1.0.0'', 3), (''1.0.0-x'', 9)], head = 4\<rparr>)"
proof -
  let ?r = "\<lparr>tags = [(''1.0.0-rc.1'', 3)], head = 4\<rparr>"
  let ?r' = "\<lparr>tags = [(''1.0.0-rc.1'', 3), (''1.0.0'', 3)], head = 4\<rparr>"
  let ?r'' = "\<lparr>tags = [(''1.0.0-rc.1'', 3), (''1.0.0'', 3), (''1.0.0-x'', 9)], head = 4\<rparr>"
  have m: "require_fullmatch production_pattern ''1.0.0'' = Inr ()" by code_simp
  have i: "''1.0.0'' \<in> set (tag_names ?r')" "''1.0.0'' \<in> set (tag_names ?r'')"
    by (simp_all add: tag_names_def)
  have c: "create_prod_tag ?r ''1.0.0-rc.1'' = (Inr ''1.0.0'', ?r')" by code_simp
  show ?thesis
    using m i c
      increment_rc_patch_rc_illegal [where base = "''1.0.0''" and r = ?r' and tag = "''x''"
        and P = "''1.0.0''" and r' = ?r']
      increment_rc_patch_rc_illegal [where base = "''1.0.0''" and r = ?r and tag = "''1.0.0-rc.1''"
        and P = "''1.0.0''" and r' = ?r']
    by blast
qed




text \<open>
  C6. Whenever \<open>increment_prerelease_tag\<close> is given a tag and succeeds, the tag it returns
  compares strictly above the given tag in SemVer precedence, whichever branch produced it
  (the ordinal bump, the minor seed or the major seed): the given tag parses, and every
  SemVer value the returned name parses to has a greater key. With a channel of lower-case
  letters the returned name always parses.
\<close>

theorem advance_never_decreases:
  assumes "increment_prerelease_tag r (Some t) channel major_bump = (Inr res, r')" "t \<noteq> []"
  shows "(lowers channel \<longrightarrow> (\<exists>w. semver_parse res = Some w))
         \<and> (\<forall>w. semver_parse res = Some w \<longrightarrow>
               (\<exists>v. semver_parse t = Some v \<and> semver_key v < semver_key w))"
proof -
  from increment_prerelease_tag_Inr [OF assms(1,2)]
  obtain v where m: "require_fullmatch prerelease_pattern t = Inr ()" and v: "semver_parse t = Some v"
    by blast
  from prerelease_tag_canonical [OF m v] obtain ch N where l: "lowers ch"
    and t: "t = str_nat (major v) @ ''.'' @ str_nat (minor v) @ ''.'' @ str_nat (patch v) @ ''-'' @ ch @ ''.'' @ str_nat N"
    and pv: "prerelease v = Some (ch @ ''.'' @ str_nat N)" "build v = None"
    by metis
  have veq: "v = \<lparr>major = major v, minor = minor v, patch = patch v,
       prerelease = Some (ch @ ''.'' @ str_nat N), build = None\<rparr>"
    using version_eq [of v] pv by simp
  have "semver_key v < semver_key w" if "semver_parse res = Some w" for w
    using advance_channel_increases [OF l assms(1) [unfolded t] that] veq by simp
  moreover have "\<exists>w. semver_parse res = Some w" if "lowers channel"
    using advance_channel_parses [OF l that assms(1) [unfolded t]] .
  ultimately show ?thesis using v by blast
qed

theorem advance_never_decreases_witness:
  "increment_prerelease_tag \<lparr>tags = [(''1.0.0-dev.9'', 1)], head = 2\<rparr> (Some ''1.0.0-dev.9'') ''dev'' False
     = (Inr ''1.0.0-dev.10'', \<lparr>tags = [(''1.0.0-dev.9'', 1), (''1.0.0-dev.10'', 2)], head = 2\<rparr>)
   \<and> ''1.0.0-dev.9'' \<noteq> []
   \<and> lowers ''dev''
   \<and> semver_parse ''1.0.0-dev.10''
       = Some \<lparr>major = 1, minor = 0, patch = 0, prerelease = Some ''dev.10'', build = None\<rparr>
   \<and> (\<exists>v. semver_parse ''1.0.0-dev.9'' = Some v
          \<and> semver_key v
              < semver_key \<lparr>major = 1, minor = 0, patch = 0, prerelease = Some ''dev.10'', build = None\<rparr>)"
proof -
  have a: "increment_prerelease_tag \<lparr>tags = [(''1.0.0-dev.9'', 1)], head = 2\<rparr> (Some ''1.0.0-dev.9'') ''dev'' False
     = (Inr ''1.0.0-dev.10'', \<lparr>tags = [(''1.0.0-dev.9'', 1), (''1.0.0-dev.10'', 2)], head = 2\<rparr>)"
    by code_simp
  have b: "''1.0.0-dev.9'' \<noteq> []" by simp
  have l: "lowers ''dev''" by code_simp
  have c: "semver_parse ''1.0.0-dev.10''
       = Some \<lparr>major = 1, minor = 0, patch = 0, prerelease = Some ''dev.10'', build = None\<rparr>"
    by code_simp
  from advance_never_decreases [OF a b] a b c l show ?thesis by blast
qed




text \<open>
  C7. \<open>find_tag\<close> is not a test of string equality: the queried name is used as a
  pattern. With the only tag \<^verbatim>\<open>1-0-0\<close> the query \<^verbatim>\<open>1.0.0\<close> is answered \<open>True\<close>, and with the
  only tag \<^verbatim>\<open>1.0.0+build\<close> the query \<^verbatim>\<open>1.0.0+build\<close> is answered \<open>False\<close>.
\<close>

theorem find_tag_regex_not_literal:
  "find_tag \<lparr>tags = [(''1-0-0'', 1)], head = 1\<rparr> ''1.0.0'' = Inr True
   \<and> ''1.0.0'' \<notin> set (tag_names \<lparr>tags = [(''1-0-0'', 1)], head = 1\<rparr>)
   \<and> find_tag \<lparr>tags = [(''1.0.0+build'', 1)], head = 1\<rparr> ''1.0.0+build'' = Inr False
   \<and> ''1.0.0+build'' \<in> set (tag_names \<lparr>tags = [(''1.0.0+build'', 1)], head = 1\<rparr>)"
  by code_simp

text \<open>
  C4. \<open>increment_rc_patch\<close> with channel \<^verbatim>\<open>patch\<close>, for a base of the \<open>X.Y.Z\<close> shape. In any
  repository, if a tag named base exists and base is not valid SemVer the call raises
  \<open>ValueError\<close>; a base that is valid SemVer is \<open>X.Y.Z\<close> with the numbers as \<open>str\<close> prints them.
  In a repository whose tags all have the production or the prerelease shape, the call
  raises \<open>InvalidTagCreation\<close> if no tag named base exists, and it raises \<open>InvalidTagCreation\<close>
  if and only if no tag named base exists or base is valid SemVer and the tag \<^verbatim>\<open>X.Y.(Z+1)\<close>
  exists. For a valid base whose tag exists: if the tag \<^verbatim>\<open>X.Y.(Z+1)\<close> exists the call raises
  \<open>InvalidTagCreation\<close>; if not, and some tag \<^verbatim>\<open>{base}-patch.n\<close> has an ordinal of digits that is
  not written as \<open>str\<close> prints a number, it raises \<open>ValueError\<close>; if not, it returns \<open>None\<close> when
  the repository has no tag \<^verbatim>\<open>{base}-patch.N\<close>, and when it has some it creates at the head
  commit and returns \<^verbatim>\<open>{base}-patch.(M+1)\<close>, where \<open>M\<close> is the greatest ordinal of that family.
  Every error leaves the repository as it was.
\<close>

theorem increment_rc_patch_patch_spec:
  "(require_fullmatch production_pattern base = Inr () \<and> base \<in> set (tag_names r)
       \<and> semver_parse base = None
     \<longrightarrow> increment_rc_patch r base ''patch'' = (Inl ValueError, r))
   \<and> (require_fullmatch production_pattern base = Inr () \<and> semver_parse base \<noteq> None
     \<longrightarrow> (\<exists>X Y Z. base = str_nat X @ ''.'' @ str_nat Y @ ''.'' @ str_nat Z))
   \<and> (wf_repo r \<and> require_fullmatch production_pattern base = Inr ()
     \<longrightarrow> (base \<notin> set (tag_names r) \<longrightarrow>
            increment_rc_patch r base ''patch'' =
              (Inl (InvalidTagCreation
                 ''Production version not available. Cannot create Patch version!''), r))
         \<and> ((\<exists>msg. fst (increment_rc_patch r base ''patch'') = Inl (InvalidTagCreation msg))
              \<longleftrightarrow> base \<notin> set (tag_names r)
                  \<or> (\<exists>X Y Z. base = str_nat X @ ''.'' @ str_nat Y @ ''.'' @ str_nat Z
                        \<and> str_nat X @ ''.'' @ str_nat Y @ ''.'' @ str_nat (Z + 1) \<in> set (tag_names r))))
   \<and> (wf_repo r \<and> base = str_nat X @ ''.'' @ str_nat Y @ ''.'' @ str_nat Z
       \<and> succ = str_nat X @ ''.'' @ str_nat Y @ ''.'' @ str_nat (Z + 1)
       \<and> base \<in> set (tag_names r)
     \<longrightarrow> (succ \<in> set (tag_names r) \<longrightarrow>
            increment_rc_patch r base ''patch'' =
              (Inl (InvalidTagCreation
                 ''Cannot increment Patch pre-release version. Patch found in Production.''), r))
         \<and> (succ \<notin> set (tag_names r)
              \<and> (\<exists>n. digits n \<and> base @ ''-patch.'' @ n \<in> set (tag_names r) \<and> (\<forall>N. n \<noteq> str_nat N)) \<longrightarrow>
              increment_rc_patch r base ''patch'' = (Inl ValueError, r))
         \<and> (succ \<notin> set (tag_names r)
              \<and> (\<forall>n. digits n \<and> base @ ''-patch.'' @ n \<in> set (tag_names r) \<longrightarrow> (\<exists>N. n = str_nat N)) \<longrightarrow>
              ((\<forall>N. base @ ''-patch.'' @ str_nat N \<notin> set (tag_names r)) \<longrightarrow>
                 increment_rc_patch r base ''patch'' = (Inr None, r))
              \<and> ((\<exists>N. base @ ''-patch.'' @ str_nat N \<in> set (tag_names r)) \<longrightarrow>
                 (\<exists>M. base @ ''-patch.'' @ str_nat M \<in> set (tag_names r)
                    \<and> (\<forall>N. base @ ''-patch.'' @ str_nat N \<in> set (tag_names r) \<longrightarrow> N \<le> M)
                    \<and> increment_rc_patch r base ''patch'' =
                        (Inr (Some (base @ ''-patch.'' @ str_nat (M + 1))),
                         r\<lparr>tags := tags r @ [(base @ ''-patch.'' @ str_nat (M + 1), head r)]\<rparr>)))))"
proof -
  define res where "res = increment_rc_patch r base ''patch''"
  have 1: "require_fullmatch production_pattern base = Inr () \<and> base \<in> set (tag_names r)
       \<and> semver_parse base = None
     \<longrightarrow> res = (Inl ValueError, r)"
    unfolding res_def using increment_rc_patch_invalid_base by blast
  have 2: "require_fullmatch production_pattern base = Inr () \<and> semver_parse base \<noteq> None
     \<longrightarrow> (\<exists>X Y Z. base = str_nat X @ ''.'' @ str_nat Y @ ''.'' @ str_nat Z)"
  proof
    assume a: "require_fullmatch production_pattern base = Inr () \<and> semver_parse base \<noteq> None"
    then obtain v where "semver_parse base = Some v" by blast
    from production_tag_canonical [OF a [THEN conjunct1] this]
    show "\<exists>X Y Z. base = str_nat X @ ''.'' @ str_nat Y @ ''.'' @ str_nat Z" by blast
  qed
  have 3: "wf_repo r \<and> require_fullmatch production_pattern base = Inr ()
     \<longrightarrow> (base \<notin> set (tag_names r) \<longrightarrow>
            res = (Inl (InvalidTagCreation
                 ''Production version not available. Cannot create Patch version!''), r))
         \<and> ((\<exists>msg. fst res = Inl (InvalidTagCreation msg))
              \<longleftrightarrow> base \<notin> set (tag_names r)
                  \<or> (\<exists>X Y Z. base = str_nat X @ ''.'' @ str_nat Y @ ''.'' @ str_nat Z
                        \<and> str_nat X @ ''.'' @ str_nat Y @ ''.'' @ str_nat (Z + 1) \<in> set (tag_names r)))"
  proof
    assume a: "wf_repo r \<and> require_fullmatch production_pattern base = Inr ()"
    then have wf: "wf_repo r" and rf: "require_fullmatch production_pattern base = Inr ()"
      by simp_all
    define sc where "sc = (\<exists>X Y Z. base = str_nat X @ ''.'' @ str_nat Y @ ''.'' @ str_nat Z
                        \<and> str_nat X @ ''.'' @ str_nat Y @ ''.'' @ str_nat (Z + 1) \<in> set (tag_names r))"
    have nb: "base \<notin> set (tag_names r) \<longrightarrow>
            res = (Inl (InvalidTagCreation
                 ''Production version not available. Cannot create Patch version!''), r)"
      unfolding res_def using increment_rc_patch_no_base [OF wf rf] by blast
    have iff: "(\<exists>msg. fst res = Inl (InvalidTagCreation msg)) \<longleftrightarrow> base \<notin> set (tag_names r) \<or> sc"
    proof
      assume e: "\<exists>msg. fst res = Inl (InvalidTagCreation msg)"
      show "base \<notin> set (tag_names r) \<or> sc"
      proof (rule ccontr)
        assume n: "\<not> (base \<notin> set (tag_names r) \<or> sc)"
        then have i: "base \<in> set (tag_names r)" and ns: "\<not> sc" by simp_all
        show False
        proof (cases "semver_parse base")
          case None
          from increment_rc_patch_invalid_base [OF rf i None] e show False
            unfolding res_def by simp
        next
          case (Some v)
          from production_tag_canonical [OF rf Some]
          have b: "base = str_nat (major v) @ ''.'' @ str_nat (minor v) @ ''.'' @ str_nat (patch v)"
            by simp
          with ns have s: "str_nat (major v) @ ''.'' @ str_nat (minor v) @ ''.'' @ str_nat (patch v + 1)
              \<notin> set (tag_names r)"
            unfolding sc_def by blast
          from increment_rc_patch_not_illegal [OF wf b i s] e show False
            unfolding res_def by blast
        qed
      qed
    next
      assume d: "base \<notin> set (tag_names r) \<or> sc"
      show "\<exists>msg. fst res = Inl (InvalidTagCreation msg)"
      proof (cases "base \<in> set (tag_names r)")
        case False
        from increment_rc_patch_no_base [OF wf rf False] show ?thesis
          unfolding res_def by simp
      next
        case True
        with d have sc by simp
        then obtain X Y Z where b: "base = str_nat X @ ''.'' @ str_nat Y @ ''.'' @ str_nat Z"
          and s: "str_nat X @ ''.'' @ str_nat Y @ ''.'' @ str_nat (Z + 1) \<in> set (tag_names r)"
          unfolding sc_def by blast
        from increment_rc_patch_patch_wf [OF wf b refl True, THEN conjunct1, THEN mp, OF s]
        show ?thesis unfolding res_def by simp
      qed
    qed
    from nb iff [unfolded sc_def]
    show "(base \<notin> set (tag_names r) \<longrightarrow>
            res = (Inl (InvalidTagCreation
                 ''Production version not available. Cannot create Patch version!''), r))
         \<and> ((\<exists>msg. fst res = Inl (InvalidTagCreation msg))
              \<longleftrightarrow> base \<notin> set (tag_names r)
                  \<or> (\<exists>X Y Z. base = str_nat X @ ''.'' @ str_nat Y @ ''.'' @ str_nat Z
                        \<and> str_nat X @ ''.'' @ str_nat Y @ ''.'' @ str_nat (Z + 1) \<in> set (tag_names r)))"
      by (rule conjI)
  qed
  have 4: "wf_repo r \<and> base = str_nat X @ ''.'' @ str_nat Y @ ''.'' @ str_nat Z
       \<and> succ = str_nat X @ ''.'' @ str_nat Y @ ''.'' @ str_nat (Z + 1)
       \<and> base \<in> set (tag_names r)
     \<longrightarrow> (succ \<in> set (tag_names r) \<longrightarrow>
            res = (Inl (InvalidTagCreation
                 ''Cannot increment Patch pre-release version. Patch found in Production.''), r))
         \<and> (succ \<notin> set (tag_names r)
              \<and> (\<exists>n. digits n \<and> base @ ''-patch.'' @ n \<in> set (tag_names r) \<and> (\<forall>N. n \<noteq> str_nat N)) \<longrightarrow>
              res = (Inl ValueError, r))
         \<and> (succ \<notin> set (tag_names r)
              \<and> (\<forall>n. digits n \<and> base @ ''-patch.'' @ n \<in> set (tag_names r) \<longrightarrow> (\<exists>N. n = str_nat N)) \<longrightarrow>
              ((\<forall>N. base @ ''-patch.'' @ str_nat N \<notin> set (tag_names r)) \<longrightarrow> res = (Inr None, r))
              \<and> ((\<exists>N. base @ ''-patch.'' @ str_nat N \<in> set (tag_names r)) \<longrightarrow>
                 (\<exists>M. base @ ''-patch.'' @ str_nat M \<in> set (tag_names r)
                    \<and> (\<forall>N. base @ ''-patch.'' @ str_nat N \<in> set (tag_names r) \<longrightarrow> N \<le> M)
                    \<and> res =
                        (Inr (Some (base @ ''-patch.'' @ str_nat (M + 1))),
                         r\<lparr>tags := tags r @ [(base @ ''-patch.'' @ str_nat (M + 1), head r)]\<rparr>))))"
  proof
    assume a: "wf_repo r \<and> base = str_nat X @ ''.'' @ str_nat Y @ ''.'' @ str_nat Z
       \<and> succ = str_nat X @ ''.'' @ str_nat Y @ ''.'' @ str_nat (Z + 1)
       \<and> base \<in> set (tag_names r)"
    note h = a [THEN conjunct1] a [THEN conjunct2, THEN conjunct1]
      a [THEN conjunct2, THEN conjunct2, THEN conjunct1]
      a [THEN conjunct2, THEN conjunct2, THEN conjunct2]
    show "(succ \<in> set (tag_names r) \<longrightarrow>
            res = (Inl (InvalidTagCreation
                 ''Cannot increment Patch pre-release version. Patch found in Production.''), r))
         \<and> (succ \<notin> set (tag_names r)
              \<and> (\<exists>n. digits n \<and> base @ ''-patch.'' @ n \<in> set (tag_names r) \<and> (\<forall>N. n \<noteq> str_nat N)) \<longrightarrow>
              res = (Inl ValueError, r))
         \<and> (succ \<notin> set (tag_names r)
              \<and> (\<forall>n. digits n \<and> base @ ''-patch.'' @ n \<in> set (tag_names r) \<longrightarrow> (\<exists>N. n = str_nat N)) \<longrightarrow>
              ((\<forall>N. base @ ''-patch.'' @ str_nat N \<notin> set (tag_names r)) \<longrightarrow> res = (Inr None, r))
              \<and> ((\<exists>N. base @ ''-patch.'' @ str_nat N \<in> set (tag_names r)) \<longrightarrow>
                 (\<exists>M. base @ ''-patch.'' @ str_nat M \<in> set (tag_names r)
                    \<and> (\<forall>N. base @ ''-patch.'' @ str_nat N \<in> set (tag_names r) \<longrightarrow> N \<le> M)
                    \<and> res =
                        (Inr (Some (base @ ''-patch.'' @ str_nat (M + 1))),
                         r\<lparr>tags := tags r @ [(base @ ''-patch.'' @ str_nat (M + 1), head r)]\<rparr>))))"
      unfolding res_def by (rule increment_rc_patch_patch_wf [OF h])
  qed
  show ?thesis
    by (rule conjI [OF 1 conjI [OF 2 conjI [OF 3 4]], unfolded res_def])
qed

theorem increment_rc_patch_patch_spec_witness:
  "require_fullmatch production_pattern ''01.0.0'' = Inr ()
   \<and> semver_parse ''01.0.0'' = None
   \<and> increment_rc_patch \<lparr>tags = [(''01.0.0'', 1), (''x'', 2)], head = 5\<rparr> ''01.0.0'' ''patch''
       = (Inl ValueError, \<lparr>tags = [(''01.0.0'', 1), (''x'', 2)], head = 5\<rparr>)
   \<and> (\<exists>X Y Z. ''1.0.0'' = str_nat X @ ''.'' @ str_nat Y @ ''.'' @ str_nat Z)
   \<and> wf_repo \<lparr>tags = [(''0.9.0'', 1)], head = 5\<rparr>
   \<and> increment_rc_patch \<lparr>tags = [(''0.9.0'', 1)], head = 5\<rparr> ''1.0.0'' ''patch''
       = (Inl (InvalidTagCreation
            ''Production version not available. Cannot create Patch version!''),
          \<lparr>tags = [(''0.9.0'', 1)], head = 5\<rparr>)
   \<and> wf_repo \<lparr>tags = [(''1.0.0'', 1), (''1.0.0-patch.1'', 2), (''1.0.1'', 2)], head = 5\<rparr>
   \<and> increment_rc_patch \<lparr>tags = [(''1.0.0'', 1), (''1.0.0-patch.1'', 2), (''1.0.1'', 2)], head = 5\<rparr>
         ''1.0.0'' ''patch''
       = (Inl (InvalidTagCreation
            ''Cannot increment Patch pre-release version. Patch found in Production.''),
          \<lparr>tags = [(''1.0.0'', 1), (''1.0.0-patch.1'', 2), (''1.0.1'', 2)], head = 5\<rparr>)
   \<and> wf_repo \<lparr>tags = [(''1.0.0'', 1), (''1.0.0-patch.01'', 2)], head = 5\<rparr>
   \<and> increment_rc_patch \<lparr>tags = [(''1.0.0'', 1), (''1.0.0-patch.01'', 2)], head = 5\<rparr> ''1.0.0'' ''patch''
       = (Inl ValueError, \<lparr>tags = [(''1.0.0'', 1), (''1.0.0-patch.01'', 2)], head = 5\<rparr>)
   \<and> wf_repo \<lparr>tags = [(''1.0.0'', 1), (''02.0.0'', 1)], head = 5\<rparr>
   \<and> increment_rc_patch \<lparr>tags = [(''1.0.0'', 1), (''02.0.0'', 1)], head = 5\<rparr> ''1.0.0'' ''patch''
       = (Inr None, \<lparr>tags = [(''1.0.0'', 1), (''02.0.0'', 1)], head = 5\<rparr>)
   \<and> wf_repo \<lparr>tags = [(''1.0.0'', 1), (''1.0.0-patch.1'', 2), (''1.0.0-patch.12'', 3),
                     (''1.0.0-patch.3'', 4), (''02.0.0'', 1)], head = 5\<rparr>
   \<and> increment_rc_patch \<lparr>tags = [(''1.0.0'', 1), (''1.0.0-patch.1'', 2), (''1.0.0-patch.12'', 3),
                                 (''1.0.0-patch.3'', 4), (''02.0.0'', 1)], head = 5\<rparr> ''1.0.0'' ''patch''
       = (Inr (Some ''1.0.0-patch.13''),
          \<lparr>tags = [(''1.0.0'', 1), (''1.0.0-patch.1'', 2), (''1.0.0-patch.12'', 3),
                   (''1.0.0-patch.3'', 4), (''02.0.0'', 1), (''1.0.0-patch.13'', 5)], head = 5\<rparr>)"
proof -
  let ?r0 = "\<lparr>tags = [(''01.0.0'', 1), (''x'', 2)], head = 5\<rparr>"
  let ?r1 = "\<lparr>tags = [(''0.9.0'', 1)], head = 5\<rparr>"
  let ?r2 = "\<lparr>tags = [(''1.0.0'', 1), (''1.0.0-patch.1'', 2), (''1.0.1'', 2)], head = 5\<rparr>"
  let ?rb = "\<lparr>tags = [(''1.0.0'', 1), (''1.0.0-patch.01'', 2)], head = 5\<rparr>"
  let ?r3 = "\<lparr>tags = [(''1.0.0'', 1), (''02.0.0'', 1)], head = 5\<rparr>"
  let ?r4 = "\<lparr>tags = [(''1.0.0'', 1), (''1.0.0-patch.1'', 2), (''1.0.0-patch.12'', 3),
                       (''1.0.0-patch.3'', 4), (''02.0.0'', 1)], head = 5\<rparr>"
  have m0: "require_fullmatch production_pattern ''01.0.0'' = Inr ()" by code_simp
  have p0: "semver_parse ''01.0.0'' = None" by code_simp
  have i0: "''01.0.0'' \<in> set (tag_names ?r0)" by (simp add: tag_names_def)
  have m1: "require_fullmatch production_pattern ''1.0.0'' = Inr ()" by code_simp
  have p1: "semver_parse ''1.0.0'' \<noteq> None" by code_simp
  have w1: "wf_repo ?r1" by code_simp
  have w2: "wf_repo ?r2" by code_simp
  have wb: "wf_repo ?rb" by code_simp
  have w3: "wf_repo ?r3" by code_simp
  have w4: "wf_repo ?r4" by code_simp
  have b: "''1.0.0'' = str_nat 1 @ ''.'' @ str_nat 0 @ ''.'' @ str_nat 0" by code_simp
  have s: "''1.0.1'' = str_nat 1 @ ''.'' @ str_nat 0 @ ''.'' @ str_nat (0 + 1)" by code_simp
  have n1: "''1'' = str_nat 1" and n3: "''3'' = str_nat 3" and n12: "''12'' = str_nat 12"
    and n13: "str_nat (12 + 1) = ''13''"
    by code_simp+
  have names1: "tag_names ?r1 = [''0.9.0'']"
    and names2: "tag_names ?r2 = [''1.0.0'', ''1.0.0-patch.1'', ''1.0.1'']"
    and namesb: "tag_names ?rb = [''1.0.0'', ''1.0.0-patch.01'']"
    and names3: "tag_names ?r3 = [''1.0.0'', ''02.0.0'']"
    and names4: "tag_names ?r4 = [''1.0.0'', ''1.0.0-patch.1'', ''1.0.0-patch.12'',
                       ''1.0.0-patch.3'', ''02.0.0'']"
    by (simp_all add: tag_names_def)
  have r0: "increment_rc_patch ?r0 ''01.0.0'' ''patch'' = (Inl ValueError, ?r0)"
    by (rule increment_rc_patch_patch_spec [where r = ?r0 and base = "''01.0.0''",
          THEN conjunct1, THEN mp, OF conjI [OF m0 conjI [OF i0 p0]]])
  have e: "\<exists>X Y Z. ''1.0.0'' = str_nat X @ ''.'' @ str_nat Y @ ''.'' @ str_nat Z"
    by (rule increment_rc_patch_patch_spec [where base = "''1.0.0''",
          THEN conjunct2, THEN conjunct1, THEN mp, OF conjI [OF m1 p1]])
  have "''1.0.0'' \<notin> set (tag_names ?r1)" unfolding names1 by simp
  with increment_rc_patch_patch_spec [where r = ?r1 and base = "''1.0.0''",
          THEN conjunct2, THEN conjunct2, THEN conjunct1, THEN mp, OF conjI [OF w1 m1],
          THEN conjunct1]
  have r1: "increment_rc_patch ?r1 ''1.0.0'' ''patch''
       = (Inl (InvalidTagCreation
            ''Production version not available. Cannot create Patch version!''), ?r1)"
    by (rule mp)
  have i2: "''1.0.0'' \<in> set (tag_names ?r2)" and s2: "''1.0.1'' \<in> set (tag_names ?r2)"
    unfolding names2 by simp_all
  note t2 = increment_rc_patch_patch_spec [where r = ?r2 and base = "''1.0.0''" and X = 1 and Y = 0
      and Z = 0 and succ = "''1.0.1''", THEN conjunct2, THEN conjunct2, THEN conjunct2, THEN mp,
      OF conjI [OF w2 conjI [OF b conjI [OF s i2]]]]
  from t2 [THEN conjunct1] s2
  have r2: "increment_rc_patch ?r2 ''1.0.0'' ''patch''
       = (Inl (InvalidTagCreation
            ''Cannot increment Patch pre-release version. Patch found in Production.''), ?r2)"
    by (rule mp)
  have ib: "''1.0.0'' \<in> set (tag_names ?rb)" and sb: "''1.0.1'' \<notin> set (tag_names ?rb)"
    unfolding namesb by simp_all
  have d01: "digits ''01''" by code_simp
  have nn: "\<not> numeric_id ''01''" by code_simp
  have z: "\<forall>N. ''01'' \<noteq> str_nat N"
  proof (intro allI notI)
    fix N assume "''01'' = str_nat N"
    with numeric_id_str_nat [of N] nn show False by simp
  qed
  have mb: "''1.0.0'' @ ''-patch.'' @ ''01'' \<in> set (tag_names ?rb)" unfolding namesb by simp
  from d01 mb z
  have hb: "\<exists>n. digits n \<and> ''1.0.0'' @ ''-patch.'' @ n \<in> set (tag_names ?rb) \<and> (\<forall>N. n \<noteq> str_nat N)"
    by blast
  note tb = increment_rc_patch_patch_spec [where r = ?rb and base = "''1.0.0''" and X = 1 and Y = 0
      and Z = 0 and succ = "''1.0.1''", THEN conjunct2, THEN conjunct2, THEN conjunct2, THEN mp,
      OF conjI [OF wb conjI [OF b conjI [OF s ib]]]]
  have rb: "increment_rc_patch ?rb ''1.0.0'' ''patch'' = (Inl ValueError, ?rb)"
    by (rule tb [THEN conjunct2, THEN conjunct1, THEN mp, OF conjI [OF sb hb]])
  have i3: "''1.0.0'' \<in> set (tag_names ?r3)" and s3: "''1.0.1'' \<notin> set (tag_names ?r3)"
    unfolding names3 by simp_all
  have f3: "\<forall>n. digits n \<and> ''1.0.0'' @ ''-patch.'' @ n \<in> set (tag_names ?r3) \<longrightarrow> (\<exists>N. n = str_nat N)"
    unfolding names3 by simp
  have e3: "\<forall>N. ''1.0.0'' @ ''-patch.'' @ str_nat N \<notin> set (tag_names ?r3)"
    unfolding names3 by simp
  note t3 = increment_rc_patch_patch_spec [where r = ?r3 and base = "''1.0.0''" and X = 1 and Y = 0
      and Z = 0 and succ = "''1.0.1''", THEN conjunct2, THEN conjunct2, THEN conjunct2, THEN mp,
      OF conjI [OF w3 conjI [OF b conjI [OF s i3]]]]
  have r3: "increment_rc_patch ?r3 ''1.0.0'' ''patch'' = (Inr None, ?r3)"
    by (rule t3 [THEN conjunct2, THEN conjunct2, THEN mp, OF conjI [OF s3 f3], THEN conjunct1,
          THEN mp, OF e3])
  have i4: "''1.0.0'' \<in> set (tag_names ?r4)" and s4: "''1.0.1'' \<notin> set (tag_names ?r4)"
    unfolding names4 by simp_all
  have f4: "\<forall>n. digits n \<and> ''1.0.0'' @ ''-patch.'' @ n \<in> set (tag_names ?r4) \<longrightarrow> (\<exists>N. n = str_nat N)"
  proof (intro allI impI)
    fix n assume "digits n \<and> ''1.0.0'' @ ''-patch.'' @ n \<in> set (tag_names ?r4)"
    then have "n = ''1'' \<or> n = ''12'' \<or> n = ''3''" unfolding names4 by simp
    then show "\<exists>N. n = str_nat N" using n1 n12 n3 by blast
  qed
  have in12: "''1.0.0'' @ ''-patch.'' @ str_nat 12 \<in> set (tag_names ?r4)"
    unfolding n12 [symmetric] names4 by simp
  have x4: "\<exists>N. ''1.0.0'' @ ''-patch.'' @ str_nat N \<in> set (tag_names ?r4)"
    by (rule exI [of _ 12]) (rule in12)
  note t4 = increment_rc_patch_patch_spec [where r = ?r4 and base = "''1.0.0''" and X = 1 and Y = 0
      and Z = 0 and succ = "''1.0.1''", THEN conjunct2, THEN conjunct2, THEN conjunct2, THEN mp,
      OF conjI [OF w4 conjI [OF b conjI [OF s i4]]]]
  from t4 [THEN conjunct2, THEN conjunct2, THEN mp, OF conjI [OF s4 f4], THEN conjunct2,
          THEN mp, OF x4]
  obtain M where M1: "''1.0.0'' @ ''-patch.'' @ str_nat M \<in> set (tag_names ?r4)"
    and M2: "\<forall>N. ''1.0.0'' @ ''-patch.'' @ str_nat N \<in> set (tag_names ?r4) \<longrightarrow> N \<le> M"
    and M3: "increment_rc_patch ?r4 ''1.0.0'' ''patch'' =
       (Inr (Some (''1.0.0'' @ ''-patch.'' @ str_nat (M + 1))),
        ?r4\<lparr>tags := tags ?r4 @ [(''1.0.0'' @ ''-patch.'' @ str_nat (M + 1), head ?r4)]\<rparr>)"
    by (elim exE conjE)
  from M1 have "str_nat M = ''1'' \<or> str_nat M = ''12'' \<or> str_nat M = ''3''"
    unfolding names4 by simp
  then have "str_nat M = str_nat 1 \<or> str_nat M = str_nat 12 \<or> str_nat M = str_nat 3"
    unfolding n1 n12 n3 .
  then have "M = 1 \<or> M = 12 \<or> M = 3" using str_nat_inj by blast
  moreover from M2 [THEN spec, of 12] in12 have "12 \<le> M" by (rule mp)
  ultimately have "M = 12" by arith
  have r4: "increment_rc_patch ?r4 ''1.0.0'' ''patch''
       = (Inr (Some ''1.0.0-patch.13''),
          \<lparr>tags = [(''1.0.0'', 1), (''1.0.0-patch.1'', 2), (''1.0.0-patch.12'', 3),
                   (''1.0.0-patch.3'', 4), (''02.0.0'', 1), (''1.0.0-patch.13'', 5)], head = 5\<rparr>)"
    unfolding M3 \<open>M = 12\<close> n13 by simp
  show ?thesis
    using m0 p0 r0 e w1 r1 w2 r2 wb rb w3 r3 w4 r4 by simp
qed

theorem increment_rc_patch_patch_counterexample:
  "require_fullmatch production_pattern ''01.0.0'' = Inr ()
   \<and> ''01.0.0'' \<in> set (tag_names \<lparr>tags = [(''01.0.0'', 1)], head = 1\<rparr>)
   \<and> increment_rc_patch \<lparr>tags = [(''01.0.0'', 1)], head = 1\<rparr> ''01.0.0'' ''patch''
       = (Inl ValueError, \<lparr>tags = [(''01.0.0'', 1)], head = 1\<rparr>)"
  by code_simp

text \<open>
  C5. Let \<open>ch\<close> be a channel of lower-case letters (such as \<^verbatim>\<open>dev\<close>), let no tag name of the
  repository contain a newline, let every tag \<^verbatim>\<open>a.b.c-ch.n\<close> of digit strings in the repository
  parse as SemVer, and let \<^verbatim>\<open>B-ch.N\<close> with \<open>B = X.Y.Z\<close> be the tag of the channel with the
  greatest \<open>(X, Y, Z, N)\<close> in lexicographic order. Then \<^verbatim>\<open>B-ch.N\<close> is the current tag of the
  channel. \<open>init_new_rc\<close> raises the duplicate-name error of the backend if the tag \<^verbatim>\<open>B-rc.1\<close>
  exists; otherwise it creates \<^verbatim>\<open>B-rc.1\<close> at the commit of \<^verbatim>\<open>B-ch.N\<close> and returns it, and
  \<open>create_prod_tag\<close> on the returned tag, in the repository \<open>init_new_rc\<close> left, creates the
  production tag \<open>B\<close> at that same commit and returns it, unless a tag named \<open>B\<close> already
  existed: then it raises the duplicate-name error. Conversely, in any repository, whenever
  \<open>init_new_rc\<close> on a channel of lower-case letters returns a tag, the current tag of the
  channel is some \<^verbatim>\<open>B-ch.N\<close>, no tag \<^verbatim>\<open>X'.Y'.Z'-ch.N'\<close> of the repository has a greater
  \<open>(X', Y', Z', N')\<close>, the returned tag is \<^verbatim>\<open>B-rc.1\<close>, it is new, and \<open>create_prod_tag\<close> on it
  does as said. With the tags \<^verbatim>\<open>1.2.0-dev.3\<close> and \<^verbatim>\<open>1.2.0\<close>, \<open>init_new_rc\<close> returns \<^verbatim>\<open>1.2.0-rc.1\<close>
  and \<open>create_prod_tag\<close> on it raises the duplicate-name error.
\<close>

theorem init_new_rc_promote_round_trip:
  "(lowers ch
      \<and> (\<forall>t \<in> set (tag_names r). newline \<notin> set t)
      \<and> (\<forall>a b c n. digits a \<and> digits b \<and> digits c \<and> digits n
               \<and> a @ ''.'' @ b @ ''.'' @ c @ ''-'' @ ch @ ''.'' @ n \<in> set (tag_names r)
               \<longrightarrow> semver_parse (a @ ''.'' @ b @ ''.'' @ c @ ''-'' @ ch @ ''.'' @ n) \<noteq> None)
      \<and> B = str_nat X @ ''.'' @ str_nat Y @ ''.'' @ str_nat Z
      \<and> B @ ''-'' @ ch @ ''.'' @ str_nat N \<in> set (tag_names r)
      \<and> (\<forall>X' Y' Z' N'.
              str_nat X' @ ''.'' @ str_nat Y' @ ''.'' @ str_nat Z' @ ''-'' @ ch @ ''.'' @ str_nat N'
                \<in> set (tag_names r)
              \<longrightarrow> (X', Y', Z', N') \<le> (X, Y, Z, N))
      \<and> rc = B @ ''-rc.1''
    \<longrightarrow> (\<exists>c. commit r (B @ ''-'' @ ch @ ''.'' @ str_nat N) = Inr c
          \<and> get_current_tag r ch False = Inr (Some (B @ ''-'' @ ch @ ''.'' @ str_nat N))
          \<and> (rc \<in> set (tag_names r) \<longrightarrow> init_new_rc r ch = (Inl GitCommandError, r))
          \<and> (rc \<notin> set (tag_names r) \<longrightarrow>
               init_new_rc r ch = (Inr (Some rc), r\<lparr>tags := tags r @ [(rc, c)]\<rparr>)
               \<and> create_prod_tag (r\<lparr>tags := tags r @ [(rc, c)]\<rparr>) rc =
                   (if B \<in> set (tag_names r)
                    then (Inl GitCommandError, r\<lparr>tags := tags r @ [(rc, c)]\<rparr>)
                    else (Inr B, r\<lparr>tags := tags r @ [(rc, c), (B, c)]\<rparr>)))))
   \<and> (lowers ch \<and> init_new_rc q ch = (Inr (Some rc'), q')
    \<longrightarrow> (\<exists>X Y Z N c B.
           B = str_nat X @ ''.'' @ str_nat Y @ ''.'' @ str_nat Z
         \<and> get_current_tag q ch False = Inr (Some (B @ ''-'' @ ch @ ''.'' @ str_nat N))
         \<and> (\<forall>X' Y' Z' N'.
              str_nat X' @ ''.'' @ str_nat Y' @ ''.'' @ str_nat Z' @ ''-'' @ ch @ ''.'' @ str_nat N'
                \<in> set (tag_names q)
              \<longrightarrow> (X', Y', Z', N') \<le> (X, Y, Z, N))
         \<and> commit q (B @ ''-'' @ ch @ ''.'' @ str_nat N) = Inr c
         \<and> rc' = B @ ''-rc.1''
         \<and> rc' \<notin> set (tag_names q)
         \<and> q' = q\<lparr>tags := tags q @ [(rc', c)]\<rparr>
         \<and> create_prod_tag q' rc' =
             (if B \<in> set (tag_names q) then (Inl GitCommandError, q')
              else (Inr B, q\<lparr>tags := tags q @ [(rc', c), (B, c)]\<rparr>))))"
proof (intro conjI impI)
  assume a: "lowers ch
      \<and> (\<forall>t \<in> set (tag_names r). newline \<notin> set t)
      \<and> (\<forall>a b c n. digits a \<and> digits b \<and> digits c \<and> digits n
               \<and> a @ ''.'' @ b @ ''.'' @ c @ ''-'' @ ch @ ''.'' @ n \<in> set (tag_names r)
               \<longrightarrow> semver_parse (a @ ''.'' @ b @ ''.'' @ c @ ''-'' @ ch @ ''.'' @ n) \<noteq> None)
      \<and> B = str_nat X @ ''.'' @ str_nat Y @ ''.'' @ str_nat Z
      \<and> B @ ''-'' @ ch @ ''.'' @ str_nat N \<in> set (tag_names r)
      \<and> (\<forall>X' Y' Z' N'.
              str_nat X' @ ''.'' @ str_nat Y' @ ''.'' @ str_nat Z' @ ''-'' @ ch @ ''.'' @ str_nat N'
                \<in> set (tag_names r)
              \<longrightarrow> (X', Y', Z', N') \<le> (X, Y, Z, N))
      \<and> rc = B @ ''-rc.1''"
  note h = a [THEN conjunct1] a [THEN conjunct2, THEN conjunct1]
    a [THEN conjunct2, THEN conjunct2, THEN conjunct1]
    a [THEN conjunct2, THEN conjunct2, THEN conjunct2, THEN conjunct1]
    a [THEN conjunct2, THEN conjunct2, THEN conjunct2, THEN conjunct2, THEN conjunct1]
    a [THEN conjunct2, THEN conjunct2, THEN conjunct2, THEN conjunct2, THEN conjunct2, THEN conjunct1]
    a [THEN conjunct2, THEN conjunct2, THEN conjunct2, THEN conjunct2, THEN conjunct2, THEN conjunct2]
  show "\<exists>c. commit r (B @ ''-'' @ ch @ ''.'' @ str_nat N) = Inr c
          \<and> get_current_tag r ch False = Inr (Some (B @ ''-'' @ ch @ ''.'' @ str_nat N))
          \<and> (rc \<in> set (tag_names r) \<longrightarrow> init_new_rc r ch = (Inl GitCommandError, r))
          \<and> (rc \<notin> set (tag_names r) \<longrightarrow>
               init_new_rc r ch = (Inr (Some rc), r\<lparr>tags := tags r @ [(rc, c)]\<rparr>)
               \<and> create_prod_tag (r\<lparr>tags := tags r @ [(rc, c)]\<rparr>) rc =
                   (if B \<in> set (tag_names r)
                    then (Inl GitCommandError, r\<lparr>tags := tags r @ [(rc, c)]\<rparr>)
                    else (Inr B, r\<lparr>tags := tags r @ [(rc, c), (B, c)]\<rparr>)))"
    by (rule round_trip_forward [OF h])
next
  assume "lowers ch \<and> init_new_rc q ch = (Inr (Some rc'), q')"
  then have l: "lowers ch" and i: "init_new_rc q ch = (Inr (Some rc'), q')" by simp_all
  show "\<exists>X Y Z N c B.
           B = str_nat X @ ''.'' @ str_nat Y @ ''.'' @ str_nat Z
         \<and> get_current_tag q ch False = Inr (Some (B @ ''-'' @ ch @ ''.'' @ str_nat N))
         \<and> (\<forall>X' Y' Z' N'.
              str_nat X' @ ''.'' @ str_nat Y' @ ''.'' @ str_nat Z' @ ''-'' @ ch @ ''.'' @ str_nat N'
                \<in> set (tag_names q)
              \<longrightarrow> (X', Y', Z', N') \<le> (X, Y, Z, N))
         \<and> commit q (B @ ''-'' @ ch @ ''.'' @ str_nat N) = Inr c
         \<and> rc' = B @ ''-rc.1''
         \<and> rc' \<notin> set (tag_names q)
         \<and> q' = q\<lparr>tags := tags q @ [(rc', c)]\<rparr>
         \<and> create_prod_tag q' rc' =
             (if B \<in> set (tag_names q) then (Inl GitCommandError, q')
              else (Inr B, q\<lparr>tags := tags q @ [(rc', c), (B, c)]\<rparr>))"
    by (rule round_trip_backward [OF l i])
qed

theorem init_new_rc_promote_round_trip_witness:
  "lowers ''dev''
   \<and> ''1.2.0'' @ ''-'' @ ''dev'' @ ''.'' @ str_nat 12
        \<in> set (tag_names \<lparr>tags = [(''1.2.0-dev.3'', 7), (''1.2.0-dev.12'', 9), (''1.1.0'', 5)], head = 10\<rparr>)
   \<and> get_current_tag \<lparr>tags = [(''1.2.0-dev.3'', 7), (''1.2.0-dev.12'', 9), (''1.1.0'', 5)], head = 10\<rparr>
        ''dev'' False = Inr (Some ''1.2.0-dev.12'')
   \<and> ''1.2.0-rc.1''
        \<notin> set (tag_names \<lparr>tags = [(''1.2.0-dev.3'', 7), (''1.2.0-dev.12'', 9), (''1.1.0'', 5)], head = 10\<rparr>)
   \<and> init_new_rc \<lparr>tags = [(''1.2.0-dev.3'', 7), (''1.2.0-dev.12'', 9), (''1.1.0'', 5)], head = 10\<rparr> ''dev''
     = (Inr (Some ''1.2.0-rc.1''),
        \<lparr>tags = [(''1.2.0-dev.3'', 7), (''1.2.0-dev.12'', 9), (''1.1.0'', 5), (''1.2.0-rc.1'', 9)],
         head = 10\<rparr>)
   \<and> create_prod_tag
        \<lparr>tags = [(''1.2.0-dev.3'', 7), (''1.2.0-dev.12'', 9), (''1.1.0'', 5), (''1.2.0-rc.1'', 9)],
         head = 10\<rparr> ''1.2.0-rc.1''
     = (Inr ''1.2.0'',
        \<lparr>tags = [(''1.2.0-dev.3'', 7), (''1.2.0-dev.12'', 9), (''1.1.0'', 5), (''1.2.0-rc.1'', 9),
                 (''1.2.0'', 9)],
         head = 10\<rparr>)"
proof -
  let ?r = "\<lparr>tags = [(''1.2.0-dev.3'', 7), (''1.2.0-dev.12'', 9), (''1.1.0'', 5)], head = 10\<rparr>"
  let ?r' = "\<lparr>tags = [(''1.2.0-dev.3'', 7), (''1.2.0-dev.12'', 9), (''1.1.0'', 5), (''1.2.0-rc.1'', 9)],
         head = 10\<rparr>"
  let ?r'' = "\<lparr>tags = [(''1.2.0-dev.3'', 7), (''1.2.0-dev.12'', 9), (''1.1.0'', 5), (''1.2.0-rc.1'', 9),
                 (''1.2.0'', 9)], head = 10\<rparr>"
  have l: "lowers ''dev''" by code_simp
  have names: "tag_names ?r = [''1.2.0-dev.3'', ''1.2.0-dev.12'', ''1.1.0'']"
    by (simp add: tag_names_def)
  have nl: "\<forall>t \<in> set (tag_names ?r). newline \<notin> set t"
    unfolding names by (simp add: newline_def)
  have q1: "semver_parse ''1.2.0-dev.3''
      = Some \<lparr>major = 1, minor = 2, patch = 0, prerelease = Some ''dev.3'', build = None\<rparr>"
    and q2: "semver_parse ''1.2.0-dev.12''
      = Some \<lparr>major = 1, minor = 2, patch = 0, prerelease = Some ''dev.12'', build = None\<rparr>"
    and q3: "semver_parse ''1.1.0''
      = Some \<lparr>major = 1, minor = 1, patch = 0, prerelease = None, build = None\<rparr>"
    by code_simp+
  have pa: "semver_parse u \<noteq> None" if "u \<in> set (tag_names ?r)" for u
    using that unfolding names using q1 q2 q3 by auto
  have ps: "\<forall>a b c n. digits a \<and> digits b \<and> digits c \<and> digits n
               \<and> a @ ''.'' @ b @ ''.'' @ c @ ''-'' @ ''dev'' @ ''.'' @ n \<in> set (tag_names ?r)
               \<longrightarrow> semver_parse (a @ ''.'' @ b @ ''.'' @ c @ ''-'' @ ''dev'' @ ''.'' @ n) \<noteq> None"
    using pa by blast
  have B: "''1.2.0'' = str_nat 1 @ ''.'' @ str_nat 2 @ ''.'' @ str_nat 0" by code_simp
  have Te: "''1.2.0'' @ ''-'' @ ''dev'' @ ''.'' @ str_nat 12 = ''1.2.0-dev.12''" by code_simp
  have T: "''1.2.0'' @ ''-'' @ ''dev'' @ ''.'' @ str_nat 12 \<in> set (tag_names ?r)"
    unfolding Te names by simp
  have n3: "''3'' = str_nat 3" and n12: "''12'' = str_nat 12" by code_simp+
  have mx: "\<forall>X' Y' Z' N'.
              str_nat X' @ ''.'' @ str_nat Y' @ ''.'' @ str_nat Z' @ ''-'' @ ''dev'' @ ''.'' @ str_nat N'
                \<in> set (tag_names ?r)
              \<longrightarrow> (X', Y', Z', N') \<le> (1, 2, 0, 12)"
  proof (intro allI impI)
    fix X' Y' Z' N' :: nat
    define u where "u = str_nat X' @ ''.'' @ str_nat Y' @ ''.'' @ str_nat Z' @ ''-'' @ ''dev'' @ ''.'' @ str_nat N'"
    assume "str_nat X' @ ''.'' @ str_nat Y' @ ''.'' @ str_nat Z' @ ''-'' @ ''dev'' @ ''.'' @ str_nat N'
                \<in> set (tag_names ?r)"
    then have "u \<in> set (tag_names ?r)" unfolding u_def .
    then have c: "u = ''1.2.0-dev.3'' \<or> u = ''1.2.0-dev.12'' \<or> u = ''1.1.0''"
      unfolding names by simp
    have p: "semver_parse u = Some \<lparr>major = X', minor = Y', patch = Z',
        prerelease = Some (''dev'' @ ''.'' @ str_nat N'), build = None\<rparr>"
      unfolding u_def by (rule semver_parse_channel [OF l])
    from c show "(X', Y', Z', N') \<le> (1, 2, 0, 12)"
    proof (elim disjE)
      assume "u = ''1.2.0-dev.3''"
      with p q1 have "X' = 1 \<and> Y' = 2 \<and> Z' = 0 \<and> str_nat N' = ''3''" by simp
      then have "X' = 1 \<and> Y' = 2 \<and> Z' = 0 \<and> N' = 3" unfolding n3 using str_nat_inj by blast
      then show ?thesis by simp
    next
      assume "u = ''1.2.0-dev.12''"
      with p q2 have "X' = 1 \<and> Y' = 2 \<and> Z' = 0 \<and> str_nat N' = ''12''" by simp
      then have "X' = 1 \<and> Y' = 2 \<and> Z' = 0 \<and> N' = 12" unfolding n12 using str_nat_inj by blast
      then show ?thesis by simp
    next
      assume "u = ''1.1.0''"
      with p q3 show ?thesis by simp
    qed
  qed
  have rc: "''1.2.0-rc.1'' = ''1.2.0'' @ ''-rc.1''" by simp
  have k: "commit ?r ''1.2.0-dev.12'' = Inr 9" by code_simp
  have f: "''1.2.0-rc.1'' \<notin> set (tag_names ?r)" "''1.2.0'' \<notin> set (tag_names ?r)"
    unfolding names by simp_all
  note t = init_new_rc_promote_round_trip [where ch = "''dev''" and r = ?r and B = "''1.2.0''"
      and X = 1 and Y = 2 and Z = 0 and N = 12 and rc = "''1.2.0-rc.1''"
      and q = ?r and rc' = "''1.2.0-rc.1''" and q' = ?r']
  from t [THEN conjunct1, THEN mp, OF conjI [OF l conjI [OF nl conjI [OF ps conjI [OF B
      conjI [OF T conjI [OF mx rc]]]]]]]
  obtain c where c: "commit ?r (''1.2.0'' @ ''-'' @ ''dev'' @ ''.'' @ str_nat 12) = Inr c"
    and g: "get_current_tag ?r ''dev'' False = Inr (Some (''1.2.0'' @ ''-'' @ ''dev'' @ ''.'' @ str_nat 12))"
    and i: "''1.2.0-rc.1'' \<notin> set (tag_names ?r) \<longrightarrow>
         init_new_rc ?r ''dev'' = (Inr (Some ''1.2.0-rc.1''), ?r\<lparr>tags := tags ?r @ [(''1.2.0-rc.1'', c)]\<rparr>)
         \<and> create_prod_tag (?r\<lparr>tags := tags ?r @ [(''1.2.0-rc.1'', c)]\<rparr>) ''1.2.0-rc.1'' =
             (if ''1.2.0'' \<in> set (tag_names ?r)
              then (Inl GitCommandError, ?r\<lparr>tags := tags ?r @ [(''1.2.0-rc.1'', c)]\<rparr>)
              else (Inr ''1.2.0'', ?r\<lparr>tags := tags ?r @ [(''1.2.0-rc.1'', c), (''1.2.0'', c)]\<rparr>))"
    by (elim exE conjE)
  from c k have c9: "c = 9" unfolding Te by simp
  from i f have i1: "init_new_rc ?r ''dev'' = (Inr (Some ''1.2.0-rc.1''), ?r')"
    and p1: "create_prod_tag ?r' ''1.2.0-rc.1'' = (Inr ''1.2.0'', ?r'')"
    unfolding c9 by simp_all
  from t [THEN conjunct2, THEN mp, OF conjI [OF l i1]]
  have nf: "''1.2.0-rc.1'' \<notin> set (tag_names ?r)"
    by (elim exE conjE)
  from l T g [unfolded Te] i1 p1 nf show ?thesis by simp
qed

theorem init_new_rc_promote_counterexample:
  "get_current_tag \<lparr>tags = [(''1.2.0-dev.3'', 7), (''1.2.0'', 8)], head = 9\<rparr> ''dev'' False
     = Inr (Some ''1.2.0-dev.3'')
   \<and> init_new_rc \<lparr>tags = [(''1.2.0-dev.3'', 7), (''1.2.0'', 8)], head = 9\<rparr> ''dev''
     = (Inr (Some ''1.2.0-rc.1''),
        \<lparr>tags = [(''1.2.0-dev.3'', 7), (''1.2.0'', 8), (''1.2.0-rc.1'', 7)], head = 9\<rparr>)
   \<and> create_prod_tag \<lparr>tags = [(''1.2.0-dev.3'', 7), (''1.2.0'', 8), (''1.2.0-rc.1'', 7)], head = 9\<rparr>
        ''1.2.0-rc.1''
     = (Inl GitCommandError,
        \<lparr>tags = [(''1.2.0-dev.3'', 7), (''1.2.0'', 8), (''1.2.0-rc.1'', 7)], head = 9\<rparr>)"
  by code_simp

end
